theory Spec2Isabelle
  imports Main "HOL-Library.AList" "HOL-Library.Sublist" "HOL-Library.Word"
begin

section \<open>The file organizer of \<^verbatim>\<open>Thiebe.py\<close>: data model\<close>

text \<open>
  The program is a class \<^verbatim>\<open>FileOrganizer\<close> whose methods read and change a directory
  tree through \<^verbatim>\<open>pathlib\<close>, \<^verbatim>\<open>shutil\<close>, \<^verbatim>\<open>json\<close> and \<^verbatim>\<open>hashlib\<close>. The embedding passes
  the tree and the object's fields explicitly. Library calls follow CPython 3.11 on a
  POSIX system; every exception a call can raise is a value \<open>Inl e\<close>.
\<close>

subsection \<open>Paths and file names\<close>

text \<open>
  A path is the list of its components from the top of the tree, so that
  \<^verbatim>\<open>d / n\<close> is \<open>d @ [n]\<close>. \<^verbatim>\<open>str(p)\<close> and \<^verbatim>\<open>Path(s)\<close> are the identity on this
  representation.
\<close>

type_synonym path = "string list"

definition name :: "path \<Rightarrow> string" where
  "name p = (if p = [] then [] else last p)"

definition parent :: "path \<Rightarrow> path" where
  "parent p = butlast p"

definition startswith :: "string \<Rightarrow> string \<Rightarrow> bool" where
  "startswith s pre = (take (length pre) s = pre)"

text \<open>\<^verbatim>\<open>s.rfind(c)\<close>: the index of the last occurrence of \<open>c\<close>, or \<open>-1\<close>.\<close>

definition rfind :: "string \<Rightarrow> char \<Rightarrow> int" where
  "rfind s c =
     (if c \<in> set s
      then int (length s) - 1 - int (length (takeWhile (\<lambda>x. x \<noteq> c) (rev s)))
      else - 1)"

text \<open>
  \<^verbatim>\<open>PurePath.suffix\<close> and \<^verbatim>\<open>PurePath.stem\<close>: with \<^verbatim>\<open>i = name.rfind('.')\<close>, the suffix is
  \<^verbatim>\<open>name[i:]\<close> and the stem \<^verbatim>\<open>name[:i]\<close> if \<^verbatim>\<open>0 < i < len(name) - 1\<close>; otherwise the
  suffix is empty and the stem is the whole name.
\<close>

definition suffix_of :: "string \<Rightarrow> string" where
  "suffix_of n =
     (let i = rfind n (CHR ''.'')
      in if 0 < i \<and> i < int (length n) - 1 then drop (nat i) n else [])"

definition stem_of :: "string \<Rightarrow> string" where
  "stem_of n =
     (let i = rfind n (CHR ''.'')
      in if 0 < i \<and> i < int (length n) - 1 then take (nat i) n else n)"

text \<open>\<^verbatim>\<open>str.lower\<close>, on the ASCII letters.\<close>

definition lower_char :: "char \<Rightarrow> char" where
  "lower_char c =
     (let k = (of_char c :: nat) in if 65 \<le> k \<and> k \<le> 90 then char_of (k + 32) else c)"

definition lower :: "string \<Rightarrow> string" where
  "lower s = map lower_char s"

text \<open>\<^verbatim>\<open>str(n)\<close> of a natural number, as the f-strings of the program format it.\<close>

fun str_nat :: "nat \<Rightarrow> string" where
  "str_nat n =
     (if n < 10 then [char_of (48 + n)]
      else str_nat (n div 10) @ [char_of (48 + n mod 10)])"

declare str_nat.simps [simp del]

subsection \<open>The directory tree\<close>

text \<open>
  \<open>datetime\<close> is a \<^verbatim>\<open>datetime.datetime\<close>. A file's \<open>modified\<close> field is what
  \<^verbatim>\<open>datetime.fromtimestamp(item.stat().st_mtime)\<close> returns for it: the conversion
  from the float timestamp to local time is the library's and is not modelled.
\<close>

record datetime =
  year :: nat
  month :: nat
  day :: nat
  hour :: nat
  minute :: nat
  second :: nat

datatype errno = ENOENT | ENOTDIR | EBADF | ELOOP | EACCES | EEXIST | EISDIR | ENOTEMPTY | EINVAL

text \<open>
  \<open>OSError e\<close> stands for the subclass of \<^verbatim>\<open>OSError\<close> that Python raises for \<open>e\<close>
  (\<^verbatim>\<open>FileNotFoundError\<close> is \<open>OSError ENOENT\<close>, \<^verbatim>\<open>FileExistsError\<close> is
  \<open>OSError EEXIST\<close>, \<^verbatim>\<open>PermissionError\<close> is \<open>OSError EACCES\<close>, and so on);
  \<open>ShutilError\<close> is \<^verbatim>\<open>shutil.Error\<close>, \<open>JSONDecodeError\<close> is \<^verbatim>\<open>json.JSONDecodeError\<close>.
\<close>

datatype error = OSError errno | ShutilError | JSONDecodeError

text \<open>
  A file holds bytes, or the JSON document that \<^verbatim>\<open>save_history\<close> writes: a timestamp
  and the list of \<^verbatim>\<open>{'from': ..., 'to': ...}\<close> pairs. Bytes are taken not to parse as
  JSON.
\<close>

datatype content = Bytes string | History datetime "(path \<times> path) list"

text \<open>
  An entry of the tree is
  \<^item> a regular file with its content and modification time; \<open>accessible\<close> is false when
    \<^verbatim>\<open>open\<close> on it raises \<^verbatim>\<open>PermissionError\<close>, \<open>movable\<close> is false when moving it
    raises \<^verbatim>\<open>PermissionError\<close> (a file another process holds locked, say);
  \<^item> a directory;
  \<^item> an entry that the directory lists but on which \<^verbatim>\<open>stat\<close> fails with the given
    error number (a dangling symbolic link gives \<open>ENOENT\<close>, a symbolic link into a
    directory without search permission gives \<open>EACCES\<close>).
  The tree is a table from paths to entries; the order of the table is the order in which
  the operating system lists directories. File sizes are left out: the program only sums
  and prints them.
\<close>

datatype node =
    File (content: content) (modified: datetime) (accessible: bool) (movable: bool)
  | Dir
  | Unstatable errno

type_synonym fs = "(path \<times> node) list"

definition lookup :: "fs \<Rightarrow> path \<Rightarrow> node option" where
  "lookup t p = map_of t p"

definition fs_put :: "path \<Rightarrow> node \<Rightarrow> fs \<Rightarrow> fs" where
  "fs_put p n t = AList.update p n t"

definition fs_del :: "path \<Rightarrow> fs \<Rightarrow> fs" where
  "fs_del p t = AList.delete p t"

text \<open>The direct children of a directory, in listing order.\<close>

definition children :: "fs \<Rightarrow> path \<Rightarrow> path list" where
  "children t d = remdups (filter (\<lambda>p. p \<noteq> [] \<and> parent p = d) (map fst t))"

subsection \<open>\<^verbatim>\<open>os\<close> and \<^verbatim>\<open>pathlib\<close> primitives\<close>

text \<open>\<^verbatim>\<open>pathlib._ignore_error\<close>: the error numbers that \<^verbatim>\<open>exists\<close>, \<^verbatim>\<open>is_file\<close> and
  \<^verbatim>\<open>is_dir\<close> turn into \<^verbatim>\<open>False\<close>; any other error they re-raise.\<close>

definition ignore_error :: "errno \<Rightarrow> bool" where
  "ignore_error e = (e = ENOENT \<or> e = ENOTDIR \<or> e = EBADF \<or> e = ELOOP)"

text \<open>\<^verbatim>\<open>Path.stat\<close>: the entry itself stands for its \<^verbatim>\<open>stat_result\<close>.\<close>

definition stat :: "fs \<Rightarrow> path \<Rightarrow> error + node" where
  "stat t p =
     (case lookup t p of
        None \<Rightarrow> Inl (OSError ENOENT)
      | Some (Unstatable e) \<Rightarrow> Inl (OSError e)
      | Some n \<Rightarrow> Inr n)"

definition stat_test :: "(node \<Rightarrow> bool) \<Rightarrow> fs \<Rightarrow> path \<Rightarrow> error + bool" where
  "stat_test P t p =
     (case stat t p of
        Inr n \<Rightarrow> Inr (P n)
      | Inl (OSError e) \<Rightarrow> if ignore_error e then Inr False else Inl (OSError e)
      | Inl x \<Rightarrow> Inl x)"

definition path_exists :: "fs \<Rightarrow> path \<Rightarrow> error + bool" where
  "path_exists t p = stat_test (\<lambda>n. True) t p"

definition is_file :: "fs \<Rightarrow> path \<Rightarrow> error + bool" where
  "is_file t p = stat_test (\<lambda>n. case n of File c m a v \<Rightarrow> True | _ \<Rightarrow> False) t p"

definition is_dir :: "fs \<Rightarrow> path \<Rightarrow> error + bool" where
  "is_dir t p = stat_test (\<lambda>n. n = Dir) t p"

text \<open>\<^verbatim>\<open>os.path.isdir\<close> and \<^verbatim>\<open>os.path.exists\<close> return \<^verbatim>\<open>False\<close> on every error.\<close>

definition os_path_isdir :: "fs \<Rightarrow> path \<Rightarrow> bool" where
  "os_path_isdir t p = (stat t p = Inr Dir)"

definition os_path_exists :: "fs \<Rightarrow> path \<Rightarrow> bool" where
  "os_path_exists t p = (case stat t p of Inr n \<Rightarrow> True | Inl e \<Rightarrow> False)"

text \<open>\<^verbatim>\<open>Path.iterdir\<close>, which lists with \<^verbatim>\<open>os.listdir\<close> when the loop starts.\<close>

definition iterdir :: "fs \<Rightarrow> path \<Rightarrow> error + path list" where
  "iterdir t d =
     (case lookup t d of
        None \<Rightarrow> Inl (OSError ENOENT)
      | Some Dir \<Rightarrow> Inr (children t d)
      | Some (Unstatable e) \<Rightarrow> Inl (OSError e)
      | Some n \<Rightarrow> Inl (OSError ENOTDIR))"

text \<open>\<^verbatim>\<open>os.mkdir\<close>: the parent must be a directory and the path must be free.\<close>

definition os_mkdir :: "fs \<Rightarrow> path \<Rightarrow> error + fs" where
  "os_mkdir t p =
     (if lookup t p \<noteq> None then Inl (OSError EEXIST)
      else if p = [] then Inl (OSError ENOENT)
      else case lookup t (parent p) of
             None \<Rightarrow> Inl (OSError ENOENT)
           | Some Dir \<Rightarrow> Inr (fs_put p Dir t)
           | Some (Unstatable e) \<Rightarrow> Inl (OSError e)
           | Some n \<Rightarrow> Inl (OSError ENOTDIR))"

text \<open>
  \<^verbatim>\<open>Path.mkdir(exist_ok=True)\<close>: an \<^verbatim>\<open>OSError\<close> of \<^verbatim>\<open>os.mkdir\<close> is swallowed when the
  path is a directory. Without \<^verbatim>\<open>parents\<close> a missing parent is raised as it is.
\<close>

definition mkdir_exist_ok :: "fs \<Rightarrow> path \<Rightarrow> error + fs" where
  "mkdir_exist_ok t p =
     (case os_mkdir t p of
        Inr t' \<Rightarrow> Inr t'
      | Inl (OSError ENOENT) \<Rightarrow> Inl (OSError ENOENT)
      | Inl e \<Rightarrow>
          (case is_dir t p of
             Inl e' \<Rightarrow> Inl e'
           | Inr b \<Rightarrow> if b then Inr t else Inl e))"

text \<open>
  \<^verbatim>\<open>Path.mkdir(parents=True, exist_ok=True)\<close>: on \<^verbatim>\<open>FileNotFoundError\<close> the parent is
  made first (unless the path is its own parent), then the directory itself with
  \<^verbatim>\<open>parents=False\<close>. Directories made before a failure stay.
\<close>

function mkdir_parents :: "fs \<Rightarrow> path \<Rightarrow> (error + unit) \<times> fs" where
  "mkdir_parents t p =
     (case os_mkdir t p of
        Inr t' \<Rightarrow> (Inr (), t')
      | Inl (OSError ENOENT) \<Rightarrow>
          (if p = [] then (Inl (OSError ENOENT), t)
           else (case mkdir_parents t (parent p) of
                   (Inl e, t') \<Rightarrow> (Inl e, t')
                 | (Inr u, t') \<Rightarrow>
                     (case mkdir_exist_ok t' p of
                        Inl e \<Rightarrow> (Inl e, t')
                      | Inr t'' \<Rightarrow> (Inr (), t''))))
      | Inl e \<Rightarrow>
          (case is_dir t p of
             Inl e' \<Rightarrow> (Inl e', t)
           | Inr b \<Rightarrow> if b then (Inr (), t) else (Inl e, t)))"
  by pat_completeness auto
termination
  by (relation "measure (\<lambda>(t, p). length p)") (auto simp: parent_def)

declare mkdir_parents.simps [simp del]

text \<open>\<^verbatim>\<open>os.rmdir\<close> removes an empty directory; \<^verbatim>\<open>os.unlink\<close> removes a non-directory.\<close>

definition rmdir :: "fs \<Rightarrow> path \<Rightarrow> error + fs" where
  "rmdir t p =
     (case lookup t p of
        None \<Rightarrow> Inl (OSError ENOENT)
      | Some Dir \<Rightarrow> if children t p = [] then Inr (fs_del p t) else Inl (OSError ENOTEMPTY)
      | Some n \<Rightarrow> Inl (OSError ENOTDIR))"

definition unlink :: "fs \<Rightarrow> path \<Rightarrow> error + fs" where
  "unlink t p =
     (case lookup t p of
        None \<Rightarrow> Inl (OSError ENOENT)
      | Some Dir \<Rightarrow> Inl (OSError EISDIR)
      | Some n \<Rightarrow> Inr (fs_del p t))"

text \<open>
  \<^verbatim>\<open>os.rename\<close>. A file replaces a non-directory at the destination; a directory moves
  with everything below it and may only replace an empty directory. The destination's
  parent must be a directory.
\<close>

definition os_rename :: "fs \<Rightarrow> path \<Rightarrow> path \<Rightarrow> error + fs" where
  "os_rename t src dst =
     (case lookup t src of
        None \<Rightarrow> Inl (OSError ENOENT)
      | Some (Unstatable e) \<Rightarrow> Inl (OSError e)
      | Some Dir \<Rightarrow>
          (if src = dst then Inr t
           else if prefix src dst then Inl (OSError EINVAL)
           else if lookup t dst \<noteq> None \<and> lookup t dst \<noteq> Some Dir then Inl (OSError ENOTDIR)
           else if lookup t dst = Some Dir \<and> children t dst \<noteq> [] then Inl (OSError ENOTEMPTY)
           else (case lookup t (parent dst) of
                   None \<Rightarrow> Inl (OSError ENOENT)
                 | Some Dir \<Rightarrow>
                     Inr (map (\<lambda>(p, n). if prefix src p then (dst @ drop (length src) p, n)
                                         else (p, n))
                            (fs_del dst t))
                 | Some (Unstatable e) \<Rightarrow> Inl (OSError e)
                 | Some n \<Rightarrow> Inl (OSError ENOTDIR)))
      | Some (File c m a v) \<Rightarrow>
          (if \<not> v then Inl (OSError EACCES)
           else if lookup t dst = Some Dir then Inl (OSError EISDIR)
           else (case lookup t (parent dst) of
                   None \<Rightarrow> Inl (OSError ENOENT)
                 | Some Dir \<Rightarrow> Inr (fs_put dst (File c m a v) (fs_del src t))
                 | Some (Unstatable e) \<Rightarrow> Inl (OSError e)
                 | Some n \<Rightarrow> Inl (OSError ENOTDIR))))"

text \<open>
  \<^verbatim>\<open>shutil.move(src, dst)\<close>. If \<open>dst\<close> is a directory, \<open>src\<close> is moved inside it, under
  its own name, and that path must not exist; otherwise \<open>src\<close> is renamed to \<open>dst\<close>. The
  copy-and-delete that \<^verbatim>\<open>shutil.move\<close> falls back on when \<^verbatim>\<open>os.rename\<close> fails is taken to
  fail with the same error and to leave the tree as it was.
\<close>

definition shutil_move :: "fs \<Rightarrow> path \<Rightarrow> path \<Rightarrow> error + fs" where
  "shutil_move t src dst =
     (if os_path_isdir t dst then
        (if src = dst then os_rename t src dst
         else let real_dst = dst @ [name src]
              in if os_path_exists t real_dst then Inl ShutilError
                 else os_rename t src real_dst)
      else os_rename t src dst)"

section \<open>The program\<close>

subsection \<open>\<^verbatim>\<open>FileOrganizer.CATEGORIES\<close> and \<^verbatim>\<open>get_file_category\<close>\<close>

definition CATEGORIES :: "(string \<times> string list) list" where
  "CATEGORIES =
     [(''Images'', [''.jpg'', ''.jpeg'', ''.png'', ''.gif'', ''.bmp'', ''.svg'', ''.webp'',
                    ''.ico'', ''.tiff'']),
      (''Documents'', [''.pdf'', ''.doc'', ''.docx'', ''.txt'', ''.rtf'', ''.odt'', ''.xls'',
                       ''.xlsx'', ''.ppt'', ''.pptx'', ''.csv'']),
      (''Videos'', [''.mp4'', ''.avi'', ''.mkv'', ''.mov'', ''.wmv'', ''.flv'', ''.webm'',
                    ''.m4v'']),
      (''Audio'', [''.mp3'', ''.wav'', ''.flac'', ''.aac'', ''.ogg'', ''.wma'', ''.m4a'']),
      (''Archives'', [''.zip'', ''.rar'', ''.7z'', ''.tar'', ''.gz'', ''.bz2'']),
      (''Code'', [''.py'', ''.js'', ''.java'', ''.cpp'', ''.c'', ''.h'', ''.cs'', ''.php'',
                  ''.html'', ''.css'', ''.rb'', ''.go'', ''.rs'']),
      (''Executables'', [''.exe'', ''.msi'', ''.bat'', ''.sh'', ''.app'', ''.dmg'']),
      (''Data'', [''.json'', ''.xml'', ''.yaml'', ''.yml'', ''.sql'', ''.db'', ''.sqlite'']),
      (''Books'', [''.epub'', ''.mobi'', ''.azw'', ''.azw3'']),
      (''Fonts'', [''.ttf'', ''.otf'', ''.woff'', ''.woff2''])]"

definition get_file_category :: "path \<Rightarrow> string" where
  "get_file_category file_path =
     (let ext = lower (suffix_of (name file_path))
      in case find (\<lambda>(category, extensions). ext \<in> set extensions) CATEGORIES of
           Some (category, extensions) \<Rightarrow> category
         | None \<Rightarrow> ''Other'')"

subsection \<open>The object and \<^verbatim>\<open>__init__\<close>\<close>

type_synonym move = "path \<times> path"

record organizer =
  source_dir :: path
  history_file :: path
  moves :: "move list"

definition init :: "path \<Rightarrow> organizer" where
  "init dir = \<lparr>source_dir = dir,
               history_file = dir @ [''.organization_history.json''],
               moves = []\<rparr>"

subsection \<open>\<^verbatim>\<open>scan_directory\<close>\<close>

text \<open>
  A scanned file is the dictionary \<^verbatim>\<open>{'path': ..., 'size': ..., 'modified': ...}\<close> without
  its size. \<open>files_by_category\<close> is the \<^verbatim>\<open>defaultdict(list)\<close>, keys in insertion order.
\<close>

record file_info =
  path :: path
  modified_at :: datetime

type_synonym 'k groups = "('k \<times> file_info list) list"

fun dict_append :: "'k \<Rightarrow> 'v \<Rightarrow> ('k \<times> 'v list) list \<Rightarrow> ('k \<times> 'v list) list" where
  "dict_append k v [] = [(k, [v])]"
| "dict_append k v ((k', vs) # kvs) =
     (if k' = k then (k', vs @ [v]) # kvs else (k', vs) # dict_append k v kvs)"

text \<open>
  The loop body of \<^verbatim>\<open>scan_directory\<close>. Neither \<^verbatim>\<open>item.is_file()\<close> nor \<^verbatim>\<open>item.stat()\<close>
  is inside a \<^verbatim>\<open>try\<close>: an error of either leaves the function.
\<close>

fun scan_items :: "fs \<Rightarrow> path list \<Rightarrow> string groups \<Rightarrow> error + string groups" where
  "scan_items t [] files_by_category = Inr files_by_category"
| "scan_items t (item # items) files_by_category =
     (case is_file t item of
        Inl e \<Rightarrow> Inl e
      | Inr b \<Rightarrow>
          if b \<and> \<not> startswith (name item) ''.'' then
            (case stat t item of
               Inl e \<Rightarrow> Inl e
             | Inr n \<Rightarrow>
                 scan_items t items
                   (dict_append (get_file_category item)
                      \<lparr>path = item, modified_at = modified n\<rparr> files_by_category))
          else scan_items t items files_by_category)"

definition scan_directory :: "organizer \<Rightarrow> fs \<Rightarrow> error + string groups" where
  "scan_directory self t =
     (case iterdir t (source_dir self) of
        Inl e \<Rightarrow> Inl e
      | Inr items \<Rightarrow> scan_items t items [])"

text \<open>\<^verbatim>\<open>preview_organization\<close> scans again, prints, and returns the groups.\<close>

definition preview_organization :: "organizer \<Rightarrow> fs \<Rightarrow> error + string groups" where
  "preview_organization self t = scan_directory self t"

subsection \<open>Choosing a destination (the loop ``Handle duplicate names'')\<close>

text \<open>
  Both organizing methods contain the same lines: \<^verbatim>\<open>dest = bucket / source.name\<close>, and
  if that exists,
  \<^verbatim>\<open>while dest.exists(): dest = bucket / f"{base}_{counter}{ext}"; counter += 1\<close>
  with \<^verbatim>\<open>base = dest.stem\<close>, \<^verbatim>\<open>ext = dest.suffix\<close> and \<^verbatim>\<open>counter = 1\<close>. \<^verbatim>\<open>dest.exists()\<close>
  is outside the \<^verbatim>\<open>try\<close>.
\<close>

definition numbered :: "path \<Rightarrow> string \<Rightarrow> string \<Rightarrow> nat \<Rightarrow> path" where
  "numbered dir base ext counter = dir @ [base @ ''_'' @ str_nat counter @ ext]"

lemma str_nat_nonempty: "str_nat n \<noteq> []"
  by (subst str_nat.simps) simp

lemma digit_char_inj: "a < 10 \<Longrightarrow> b < 10 \<Longrightarrow> char_of (48 + a) = (char_of (48 + b) :: char) \<Longrightarrow> a = b"
  for a b :: nat
proof -
  assume a: "a < 10" and b: "b < 10" and eq: "char_of (48 + a) = (char_of (48 + b) :: char)"
  from eq have "(of_char (char_of (48 + a) :: char) :: nat) = of_char (char_of (48 + b) :: char)"
    by simp
  with a b show "a = b" by simp
qed

lemma str_nat_inj: "str_nat m = str_nat n \<Longrightarrow> m = n"
proof (induction m arbitrary: n rule: str_nat.induct)
  case (1 m)
  show ?case
  proof (cases "m < 10")
    case small: True
    show ?thesis
    proof (cases "n < 10")
      case True
      with small "1.prems" show ?thesis
        by (simp add: str_nat.simps [of m] str_nat.simps [of n] digit_char_inj)
    next
      case False
      with small "1.prems" str_nat_nonempty [of "n div 10"] show ?thesis
        by (simp add: str_nat.simps [of m] str_nat.simps [of n])
    qed
  next
    case big: False
    show ?thesis
    proof (cases "n < 10")
      case True
      with big "1.prems" str_nat_nonempty [of "m div 10"] show ?thesis
        by (simp add: str_nat.simps [of m] str_nat.simps [of n])
    next
      case False
      with big "1.prems" have eq: "str_nat (m div 10) = str_nat (n div 10)"
        and d: "char_of (48 + m mod 10) = (char_of (48 + n mod 10) :: char)"
        by (simp_all add: str_nat.simps [of m] str_nat.simps [of n])
      from big eq have "m div 10 = n div 10" by (rule "1.IH")
      moreover from d have "m mod 10 = n mod 10" by (intro digit_char_inj) simp_all
      ultimately show ?thesis by (metis div_mult_mod_eq)
    qed
  qed
qed

lemma numbered_inj: "numbered dir base ext j = numbered dir base ext k \<Longrightarrow> j = k"
  by (simp add: numbered_def str_nat_inj)

lemma lookup_Some_dom: "lookup t p = Some n \<Longrightarrow> p \<in> fst ` set t"
  by (auto simp: lookup_def dest!: map_of_SomeD intro: rev_image_eqI)

lemma path_exists_True_dom: "path_exists t p = Inr True \<Longrightarrow> p \<in> fst ` set t"
  by (auto simp: path_exists_def stat_test_def stat_def dest: lookup_Some_dom
      split: option.splits sum.splits error.splits if_splits)

lemma finite_numbered_existing: "finite {k. path_exists t (numbered dir base ext k) = Inr True}"
proof -
  have "{k. path_exists t (numbered dir base ext k) = Inr True}
          \<subseteq> numbered dir base ext -` (fst ` set t)"
    by (auto dest: path_exists_True_dom)
  moreover have "finite (numbered dir base ext -` (fst ` set t))"
    by (rule finite_vimageI) (auto intro: injI numbered_inj)
  ultimately show ?thesis by (rule finite_subset)
qed

function resolve_loop :: "fs \<Rightarrow> path \<Rightarrow> string \<Rightarrow> string \<Rightarrow> path \<Rightarrow> nat \<Rightarrow> error + path" where
  "resolve_loop t dir base ext dest counter =
     (case path_exists t dest of
        Inl e \<Rightarrow> Inl e
      | Inr b \<Rightarrow>
          if b then resolve_loop t dir base ext (numbered dir base ext counter) (counter + 1)
          else Inr dest)"
  by pat_completeness auto
termination
proof (relation "measure (\<lambda>(t, dir, base, ext, dest, counter).
         2 * card {k. counter \<le> k \<and> path_exists t (numbered dir base ext k) = Inr True}
         + (if path_exists t dest = Inr True then 1 else 0))", goal_cases)
  case 1
  show ?case by simp
next
  case (2 t dir base ext dest counter b)
  let ?E = "\<lambda>k. path_exists t (numbered dir base ext k) = Inr True"
  have fin: "finite {k. counter + 1 \<le> k \<and> ?E k}"
    by (rule finite_subset [OF _ finite_numbered_existing [of t dir base ext]]) auto
  have split: "{k. counter \<le> k \<and> ?E k}
                 = (if ?E counter then {counter} else {}) \<union> {k. counter + 1 \<le> k \<and> ?E k}"
    by (auto simp: Suc_le_eq le_less)
  have "card {k. counter \<le> k \<and> ?E k}
          = (if ?E counter then 1 else 0) + card {k. counter + 1 \<le> k \<and> ?E k}"
    by (subst split) (use fin in \<open>simp\<close>)
  with 2 show ?case by simp
qed

declare resolve_loop.simps [simp del]

definition resolve_destination :: "fs \<Rightarrow> path \<Rightarrow> string \<Rightarrow> error + path" where
  "resolve_destination t dir source_name =
     (let dest = dir @ [source_name]
      in case path_exists t dest of
           Inl e \<Rightarrow> Inl e
         | Inr b \<Rightarrow>
             if b then resolve_loop t dir (stem_of (name dest)) (suffix_of (name dest)) dest 1
             else Inr dest)"

subsection \<open>Moving the files of one bucket\<close>

text \<open>
  The inner loop of both organizing methods. A failing \<^verbatim>\<open>shutil.move\<close> is caught and the
  loop goes on; a successful one appends to \<^verbatim>\<open>self.moves\<close> and counts.
\<close>

fun move_files :: "path \<Rightarrow> file_info list \<Rightarrow> organizer \<Rightarrow> fs \<Rightarrow> nat
                     \<Rightarrow> (error + nat) \<times> organizer \<times> fs" where
  "move_files bucket_dir [] self t moved_count = (Inr moved_count, self, t)"
| "move_files bucket_dir (file_info # files) self t moved_count =
     (let source = path file_info
      in case resolve_destination t bucket_dir (name source) of
           Inl e \<Rightarrow> (Inl e, self, t)
         | Inr dest \<Rightarrow>
             (case shutil_move t source dest of
                Inl e \<Rightarrow> move_files bucket_dir files self t moved_count
              | Inr t' \<Rightarrow>
                  move_files bucket_dir files
                    (self\<lparr>moves := moves self @ [(source, dest)]\<rparr>) t' (moved_count + 1)))"

subsection \<open>\<^verbatim>\<open>save_history\<close>\<close>

text \<open>\<^verbatim>\<open>open(p, 'w')\<close> followed by a write of the whole content, at time \<open>now\<close>.\<close>

definition write_file :: "fs \<Rightarrow> path \<Rightarrow> content \<Rightarrow> datetime \<Rightarrow> error + fs" where
  "write_file t p c now =
     (case lookup t p of
        Some Dir \<Rightarrow> Inl (OSError EISDIR)
      | Some (Unstatable e) \<Rightarrow> Inl (OSError e)
      | Some (File c' m a v) \<Rightarrow>
          if a then Inr (fs_put p (File c now a v) t) else Inl (OSError EACCES)
      | None \<Rightarrow>
          (if p = [] then Inl (OSError ENOENT)
           else case lookup t (parent p) of
                  None \<Rightarrow> Inl (OSError ENOENT)
                | Some Dir \<Rightarrow> Inr (fs_put p (File c now True True) t)
                | Some (Unstatable e) \<Rightarrow> Inl (OSError e)
                | Some n \<Rightarrow> Inl (OSError ENOTDIR)))"

text \<open>\<open>now\<close> is the value of \<^verbatim>\<open>datetime.now()\<close>.\<close>

definition save_history :: "datetime \<Rightarrow> organizer \<Rightarrow> fs \<Rightarrow> error + fs" where
  "save_history now self t = write_file t (history_file self) (History now (moves self)) now"

subsection \<open>\<^verbatim>\<open>organize_by_category\<close>\<close>

text \<open>
  The loop over \<^verbatim>\<open>files_by_category.items()\<close>. \<^verbatim>\<open>category_dir.mkdir(exist_ok=True)\<close>
  is outside the \<^verbatim>\<open>try\<close>.
\<close>

fun move_categories :: "path \<Rightarrow> string groups \<Rightarrow> organizer \<Rightarrow> fs \<Rightarrow> nat
                          \<Rightarrow> (error + nat) \<times> organizer \<times> fs" where
  "move_categories dir [] self t moved_count = (Inr moved_count, self, t)"
| "move_categories dir ((category, files) # rest) self t moved_count =
     (let category_dir = dir @ [category]
      in case mkdir_exist_ok t category_dir of
           Inl e \<Rightarrow> (Inl e, self, t)
         | Inr t1 \<Rightarrow>
             (case move_files category_dir files self t1 moved_count of
                (Inl e, self', t') \<Rightarrow> (Inl e, self', t')
              | (Inr moved_count', self', t') \<Rightarrow>
                  move_categories dir rest self' t' moved_count'))"

text \<open>
  The result is \<open>None\<close> after a dry run and \<open>Some moved_count\<close> after a real one (the
  number the program prints); the object and the tree are returned as the call leaves
  them, also when it raises.
\<close>

definition organize_by_category :: "bool \<Rightarrow> datetime \<Rightarrow> organizer \<Rightarrow> fs
                                      \<Rightarrow> (error + nat option) \<times> organizer \<times> fs" where
  "organize_by_category dry_run now self t =
     (case scan_directory self t of
        Inl e \<Rightarrow> (Inl e, self, t)
      | Inr files_by_category \<Rightarrow>
          if dry_run then
            (case preview_organization self t of
               Inl e \<Rightarrow> (Inl e, self, t)
             | Inr shown \<Rightarrow> (Inr None, self, t))
          else
            (case move_categories (source_dir self) files_by_category self t 0 of
               (Inl e, self', t') \<Rightarrow> (Inl e, self', t')
             | (Inr moved_count, self', t') \<Rightarrow>
                 (case save_history now self' t' of
                    Inl e \<Rightarrow> (Inl e, self', t')
                  | Inr t'' \<Rightarrow> (Inr (Some moved_count), self', t''))))"

subsection \<open>\<^verbatim>\<open>organize_by_date\<close>\<close>

text \<open>\<^verbatim>\<open>date.strftime('%B')\<close>, in the C locale.\<close>

definition month_name :: "nat \<Rightarrow> string" where
  "month_name m =
     (if 1 \<le> m \<and> m \<le> 12
      then [''January'', ''February'', ''March'', ''April'', ''May'', ''June'', ''July'',
            ''August'', ''September'', ''October'', ''November'', ''December''] ! (m - 1)
      else [])"

text \<open>\<^verbatim>\<open>key = f"{date.year}/{date.strftime('%B')}"\<close>\<close>

definition date_key :: "datetime \<Rightarrow> string" where
  "date_key date = str_nat (year date) @ ''/'' @ month_name (month date)"

fun group_by_date :: "file_info list \<Rightarrow> string groups \<Rightarrow> string groups" where
  "group_by_date [] files_by_date = files_by_date"
| "group_by_date (file_info # all_files) files_by_date =
     group_by_date all_files
       (dict_append (date_key (modified_at file_info)) file_info files_by_date)"

text \<open>
  \<^verbatim>\<open>self.source_dir / date_key\<close> parses the key: one component for each non-empty piece
  between slashes.
\<close>

function path_parts :: "string \<Rightarrow> path" where
  "path_parts s =
     (if s = [] then []
      else (let piece = takeWhile (\<lambda>c. c \<noteq> CHR ''/'') s
            in (if piece = [] then [] else [piece])
               @ path_parts (drop 1 (dropWhile (\<lambda>c. c \<noteq> CHR ''/'') s))))"
  by pat_completeness auto
termination
proof (relation "measure length", goal_cases)
  case 1
  show ?case by simp
next
  case (2 s piece)
  have "length (dropWhile (\<lambda>c. c \<noteq> CHR ''/'') s) \<le> length s"
    by (rule length_dropWhile_le)
  with 2 show ?case by (cases s) auto
qed

declare path_parts.simps [simp del]

fun move_dates :: "path \<Rightarrow> string groups \<Rightarrow> organizer \<Rightarrow> fs \<Rightarrow> nat
                     \<Rightarrow> (error + nat) \<times> organizer \<times> fs" where
  "move_dates dir [] self t moved_count = (Inr moved_count, self, t)"
| "move_dates dir ((key, files) # rest) self t moved_count =
     (let date_dir = dir @ path_parts key
      in case mkdir_parents t date_dir of
           (Inl e, t1) \<Rightarrow> (Inl e, self, t1)
         | (Inr u, t1) \<Rightarrow>
             (case move_files date_dir files self t1 moved_count of
                (Inl e, self', t') \<Rightarrow> (Inl e, self', t')
              | (Inr moved_count', self', t') \<Rightarrow>
                  move_dates dir rest self' t' moved_count'))"

definition organize_by_date :: "bool \<Rightarrow> datetime \<Rightarrow> organizer \<Rightarrow> fs
                                  \<Rightarrow> (error + nat option) \<times> organizer \<times> fs" where
  "organize_by_date dry_run now self t =
     (case scan_directory self t of
        Inl e \<Rightarrow> (Inl e, self, t)
      | Inr files_by_category \<Rightarrow>
          (let all_files = concat (map snd files_by_category);
               files_by_date = group_by_date all_files []
           in if dry_run then (Inr None, self, t)
              else
                (case move_dates (source_dir self) files_by_date self t 0 of
                   (Inl e, self', t') \<Rightarrow> (Inl e, self', t')
                 | (Inr moved_count, self', t') \<Rightarrow>
                     (case save_history now self' t' of
                        Inl e \<Rightarrow> (Inl e, self', t')
                      | Inr t'' \<Rightarrow> (Inr (Some moved_count), self', t'')))))"

subsection \<open>\<^verbatim>\<open>undo_last_organization\<close>\<close>

text \<open>\<^verbatim>\<open>open(p, 'r')\<close> and \<^verbatim>\<open>json.load\<close>; \<^verbatim>\<open>history.get('moves', [])\<close> is the list of
  the document.\<close>

definition read_file :: "fs \<Rightarrow> path \<Rightarrow> error + content" where
  "read_file t p =
     (case lookup t p of
        None \<Rightarrow> Inl (OSError ENOENT)
      | Some Dir \<Rightarrow> Inl (OSError EISDIR)
      | Some (Unstatable e) \<Rightarrow> Inl (OSError e)
      | Some (File c m a v) \<Rightarrow> if a then Inr c else Inl (OSError EACCES))"

definition json_load_moves :: "content \<Rightarrow> error + move list" where
  "json_load_moves c =
     (case c of Bytes b \<Rightarrow> Inl JSONDecodeError | History stamp ms \<Rightarrow> Inr ms)"

text \<open>
  The body of the loop over \<^verbatim>\<open>reversed(moves)\<close>. Everything is inside the \<^verbatim>\<open>try\<close>: an
  exception ends the iteration and leaves what was done before it.
\<close>

definition restore_move :: "fs \<Rightarrow> move \<Rightarrow> fs" where
  "restore_move t mv =
     (let source = snd mv; dest = fst mv
      in case path_exists t source of
           Inl e \<Rightarrow> t
         | Inr b \<Rightarrow>
             if b then
               (case mkdir_parents t (parent dest) of
                  (Inl e, t1) \<Rightarrow> t1
                | (Inr u, t1) \<Rightarrow>
                    (case shutil_move t1 source dest of
                       Inl e \<Rightarrow> t1
                     | Inr t2 \<Rightarrow> t2))
             else t)"

fun restore_moves :: "move list \<Rightarrow> fs \<Rightarrow> fs" where
  "restore_moves [] t = t"
| "restore_moves (mv # mvs) t = restore_moves mvs (restore_move t mv)"

text \<open>The loop ``Remove empty directories''; nothing in it is inside a \<^verbatim>\<open>try\<close>.\<close>

fun remove_empty_dirs :: "path list \<Rightarrow> fs \<Rightarrow> (error + unit) \<times> fs" where
  "remove_empty_dirs [] t = (Inr (), t)"
| "remove_empty_dirs (item # items) t =
     (case is_dir t item of
        Inl e \<Rightarrow> (Inl e, t)
      | Inr b \<Rightarrow>
          if b then
            (case iterdir t item of
               Inl e \<Rightarrow> (Inl e, t)
             | Inr entries \<Rightarrow>
                 if entries = [] then
                   (case rmdir t item of
                      Inl e \<Rightarrow> (Inl e, t)
                    | Inr t' \<Rightarrow> remove_empty_dirs items t')
                 else remove_empty_dirs items t)
          else remove_empty_dirs items t)"

text \<open>
  The method returns \<^verbatim>\<open>None\<close> on each of its three paths; the result names the path by
  what is printed: \<open>NoHistory\<close> for ``No history found. Nothing to undo.'',
  \<open>EmptyHistory\<close> for ``No moves to undo.'', \<open>UndoComplete\<close> for ``Undo complete!''.
\<close>

datatype undo_result = NoHistory | EmptyHistory | UndoComplete

definition undo_last_organization :: "organizer \<Rightarrow> fs \<Rightarrow> (error + undo_result) \<times> fs" where
  "undo_last_organization self t =
     (case path_exists t (history_file self) of
        Inl e \<Rightarrow> (Inl e, t)
      | Inr b \<Rightarrow>
          if \<not> b then (Inr NoHistory, t)
          else
            (case read_file t (history_file self) of
               Inl e \<Rightarrow> (Inl e, t)
             | Inr c \<Rightarrow>
                 (case json_load_moves c of
                    Inl e \<Rightarrow> (Inl e, t)
                  | Inr ms \<Rightarrow>
                      if ms = [] then (Inr EmptyHistory, t)
                      else
                        (let t1 = restore_moves (rev ms) t
                         in case iterdir t1 (source_dir self) of
                              Inl e \<Rightarrow> (Inl e, t1)
                            | Inr items \<Rightarrow>
                                (case remove_empty_dirs items t1 of
                                   (Inl e, t2) \<Rightarrow> (Inl e, t2)
                                 | (Inr u, t2) \<Rightarrow>
                                     (case unlink t2 (history_file self) of
                                        Inl e \<Rightarrow> (Inl e, t2)
                                      | Inr t3 \<Rightarrow> (Inr UndoComplete, t3)))))))"

subsection \<open>\<^verbatim>\<open>find_duplicates\<close>\<close>

text \<open>
  \<^verbatim>\<open>hashlib.md5\<close> is a parameter \<open>md5\<close> of the model: a function from a file's content
  to a digest of 128 bits. \<^verbatim>\<open>rglob('*')\<close> yields every entry below the directory, and
  nothing when the path is not a directory.
\<close>

type_synonym digest = "128 word"

definition rglob :: "fs \<Rightarrow> path \<Rightarrow> path list" where
  "rglob t d =
     (if lookup t d = Some Dir then remdups (filter (strict_prefix d) (map fst t)) else [])"

text \<open>Only the hashing is inside the \<^verbatim>\<open>try\<close>; \<^verbatim>\<open>item.is_file()\<close> is not.\<close>

fun hash_items :: "(content \<Rightarrow> digest) \<Rightarrow> fs \<Rightarrow> path list \<Rightarrow> (digest \<times> path list) list
                     \<Rightarrow> error + (digest \<times> path list) list" where
  "hash_items md5 t [] hashes = Inr hashes"
| "hash_items md5 t (item # items) hashes =
     (case is_file t item of
        Inl e \<Rightarrow> Inl e
      | Inr b \<Rightarrow>
          if b \<and> \<not> startswith (name item) ''.'' then
            (case read_file t item of
               Inl e \<Rightarrow> hash_items md5 t items hashes
             | Inr c \<Rightarrow> hash_items md5 t items (dict_append (md5 c) item hashes))
          else hash_items md5 t items hashes)"

definition find_duplicates :: "(content \<Rightarrow> digest) \<Rightarrow> organizer \<Rightarrow> fs
                                 \<Rightarrow> error + (digest \<times> path list) list" where
  "find_duplicates md5 self t =
     (case hash_items md5 t (rglob t (source_dir self)) [] of
        Inl e \<Rightarrow> Inl e
      | Inr hashes \<Rightarrow> Inr (filter (\<lambda>(h, files). length files > 1) hashes))"

section \<open>Concrete trees used in the examples\<close>

definition noon :: datetime where
  "noon = \<lparr>year = 2023, month = 3, day = 15, hour = 12, minute = 0, second = 0\<rparr>"

definition later :: datetime where
  "later = \<lparr>year = 2023, month = 3, day = 16, hour = 9, minute = 30, second = 0\<rparr>"

definition home :: path where
  "home = [''home'']"

definition plain_file :: "string \<Rightarrow> node" where
  "plain_file b = File (Bytes b) noon True True"

text \<open>An empty directory \<^verbatim>\<open>/home\<close>.\<close>

definition empty_root :: fs where
  "empty_root = [([], Dir), (home, Dir)]"

text \<open>The same directory holding a log without moves.\<close>

definition empty_log_root :: fs where
  "empty_log_root =
     [([], Dir), (home, Dir),
      (home @ [''.organization_history.json''], File (History noon []) noon True True)]"

text \<open>\<^verbatim>\<open>/home\<close> with one text file and one picture.\<close>

definition two_files :: fs where
  "two_files =
     [([], Dir), (home, Dir),
      (home @ [''notes.txt''], plain_file ''to do''),
      (home @ [''cat.png''], plain_file ''meow'')]"

text \<open>\<^verbatim>\<open>/home\<close> with an entry that cannot be examined between two files.\<close>

definition locked_entry :: fs where
  "locked_entry =
     [([], Dir), (home, Dir),
      (home @ [''notes.txt''], plain_file ''to do''),
      (home @ [''vault''], Unstatable EACCES),
      (home @ [''cat.png''], plain_file ''meow'')]"

text \<open>The same with a dangling symbolic link instead.\<close>

definition dangling_entry :: fs where
  "dangling_entry =
     [([], Dir), (home, Dir),
      (home @ [''notes.txt''], plain_file ''to do''),
      (home @ [''link''], Unstatable ENOENT),
      (home @ [''cat.png''], plain_file ''meow'')]"

text \<open>
  \<^verbatim>\<open>/home\<close> after \<^verbatim>\<open>notes.txt\<close> was organized, with an empty directory, a hidden empty
  directory and a directory with a file, none of them made by the program; and the same
  after undo.
\<close>

definition organized_home :: fs where
  "organized_home =
     [([], Dir), (home, Dir),
      (home @ [''Documents''], Dir),
      (home @ [''Documents'', ''notes.txt''], plain_file ''to do''),
      (home @ [''old''], Dir),
      (home @ [''.cache''], Dir),
      (home @ [''keep''], Dir),
      (home @ [''keep'', ''me''], plain_file ''x''),
      (home @ [''.organization_history.json''],
       File (History noon [(home @ [''notes.txt''], home @ [''Documents'', ''notes.txt''])])
         noon True True)]"

definition restored_home :: fs where
  "restored_home =
     [([], Dir), (home, Dir),
      (home @ [''keep''], Dir),
      (home @ [''keep'', ''me''], plain_file ''x''),
      (home @ [''notes.txt''], plain_file ''to do'')]"

text \<open>
  \<^verbatim>\<open>/home\<close> with two buckets: \<^verbatim>\<open>Documents\<close> already holds \<^verbatim>\<open>a.txt\<close> and \<^verbatim>\<open>a_1.txt\<close>,
  \<^verbatim>\<open>Other\<close> holds a file whose name ends in a dot.
\<close>

definition crowded_buckets :: fs where
  "crowded_buckets =
     [([], Dir), (home, Dir),
      (home @ [''Documents''], Dir),
      (home @ [''Documents'', ''a.txt''], plain_file ''1''),
      (home @ [''Documents'', ''a_1.txt''], plain_file ''2''),
      (home @ [''Other''], Dir),
      (home @ [''Other'', ''foo.''], plain_file ''3'')]"

text \<open>
  \<^verbatim>\<open>/home\<close> with two copies of one content, one of them in a subdirectory, a third file
  with another content, and a copy that cannot be opened. \<open>toy_digest\<close> is a digest
  function for the examples: the length of the content.
\<close>

definition library :: fs where
  "library =
     [([], Dir), (home, Dir),
      (home @ [''A.txt''], plain_file ''same''),
      (home @ [''sub''], Dir),
      (home @ [''sub'', ''B.txt''], plain_file ''same''),
      (home @ [''C.txt''], plain_file ''other!''),
      (home @ [''D.txt''], File (Bytes ''same'') noon False True)]"

definition toy_digest :: "content \<Rightarrow> digest" where
  "toy_digest c = (case c of Bytes b \<Rightarrow> of_nat (length b) | History stamp ms \<Rightarrow> 0)"

text \<open>
  The object and the tree after \<open>two_files\<close> was organized by category at \<open>noon\<close>, and the
  tree after the same object organized it once more at the time \<open>later\<close>.
\<close>

definition first_moves :: "move list" where
  "first_moves =
     [(home @ [''notes.txt''], home @ [''Documents'', ''notes.txt'']),
      (home @ [''cat.png''], home @ [''Images'', ''cat.png''])]"

definition first_self :: organizer where
  "first_self = \<lparr>source_dir = home,
                  history_file = home @ [''.organization_history.json''],
                  moves = first_moves\<rparr>"

definition first_tree :: fs where
  "first_tree =
     [([], Dir), (home, Dir),
      (home @ [''Documents''], Dir),
      (home @ [''Documents'', ''notes.txt''], plain_file ''to do''),
      (home @ [''Images''], Dir),
      (home @ [''Images'', ''cat.png''], plain_file ''meow''),
      (home @ [''.organization_history.json''], File (History noon first_moves) noon True True)]"

definition second_tree :: fs where
  "second_tree =
     [([], Dir), (home, Dir),
      (home @ [''Documents''], Dir),
      (home @ [''Documents'', ''notes.txt''], plain_file ''to do''),
      (home @ [''Images''], Dir),
      (home @ [''Images'', ''cat.png''], plain_file ''meow''),
      (home @ [''.organization_history.json''], File (History later first_moves) later True True)]"

text \<open>
  The tree after a newly created object organized \<open>first_tree\<close> at the time \<open>later\<close>.
\<close>

definition fresh_second_tree :: fs where
  "fresh_second_tree =
     [([], Dir), (home, Dir),
      (home @ [''Documents''], Dir),
      (home @ [''Documents'', ''notes.txt''], plain_file ''to do''),
      (home @ [''Images''], Dir),
      (home @ [''Images'', ''cat.png''], plain_file ''meow''),
      (home @ [''.organization_history.json''], File (History later []) later True True)]"

text \<open>
  \<^verbatim>\<open>/home\<close> with the single file \<^verbatim>\<open>a.txt\<close>; the object and the tree after it was organized
  by category at \<open>noon\<close>; the tree after the undo that followed and after the user put
  another file at \<^verbatim>\<open>Documents/a.txt\<close>; the object and the tree after the same object
  organized that at the time \<open>later\<close>; and the tree after the undo of this second run.
\<close>

definition single_file :: fs where
  "single_file = [([], Dir), (home, Dir), (home @ [''a.txt''], plain_file ''one'')]"

definition single_moves :: "move list" where
  "single_moves = [(home @ [''a.txt''], home @ [''Documents'', ''a.txt''])]"

definition single_self :: organizer where
  "single_self = \<lparr>source_dir = home,
                   history_file = home @ [''.organization_history.json''],
                   moves = single_moves\<rparr>"

definition single_organized :: fs where
  "single_organized =
     [([], Dir), (home, Dir),
      (home @ [''Documents''], Dir),
      (home @ [''Documents'', ''a.txt''], plain_file ''one''),
      (home @ [''.organization_history.json''], File (History noon single_moves) noon True True)]"

definition refilled_home :: fs where
  "refilled_home =
     [([], Dir), (home, Dir),
      (home @ [''a.txt''], plain_file ''one''),
      (home @ [''Documents''], Dir),
      (home @ [''Documents'', ''a.txt''], plain_file ''other'')]"

definition both_moves :: "move list" where
  "both_moves = single_moves @ [(home @ [''a.txt''], home @ [''Documents'', ''a_1.txt''])]"

definition both_self :: organizer where
  "both_self = \<lparr>source_dir = home,
                 history_file = home @ [''.organization_history.json''],
                 moves = both_moves\<rparr>"

definition reorganized :: fs where
  "reorganized =
     [([], Dir), (home, Dir),
      (home @ [''Documents''], Dir),
      (home @ [''Documents'', ''a.txt''], plain_file ''other''),
      (home @ [''Documents'', ''a_1.txt''], plain_file ''one''),
      (home @ [''.organization_history.json''], File (History later both_moves) later True True)]"

definition overwritten_home :: fs where
  "overwritten_home = [([], Dir), (home, Dir), (home @ [''a.txt''], plain_file ''other'')]"

text \<open>\<^verbatim>\<open>/home\<close> with a file that is called like a category, listed before a picture.\<close>

definition named_like_folder :: fs where
  "named_like_folder =
     [([], Dir), (home, Dir),
      (home @ [''Images''], plain_file ''list of pictures''),
      (home @ [''cat.png''], plain_file ''meow'')]"

section \<open>Notions used in the statements\<close>

text \<open>All values of a dictionary of lists, in order (\<^verbatim>\<open>all_files\<close> in the program).\<close>

definition members :: "('k \<times> 'a list) list \<Rightarrow> 'a list" where
  "members g = concat (map snd g)"

text \<open>The dictionary that appending each element under its key builds.\<close>

definition grouped :: "('a \<Rightarrow> 'k) \<Rightarrow> 'a list \<Rightarrow> ('k \<times> 'a list) list \<Rightarrow> ('k \<times> 'a list) list" where
  "grouped key xs g = fold (\<lambda>x. dict_append (key x) x) xs g"

definition keyed :: "('a \<Rightarrow> 'k) \<Rightarrow> ('k \<times> 'a list) list \<Rightarrow> bool" where
  "keyed key g = (\<forall>(k, vs) \<in> set g. vs \<noteq> [] \<and> (\<forall>v \<in> set vs. key v = k))"

text \<open>An entry is a regular file; \<^verbatim>\<open>stat\<close> on an entry fails with an error that
  \<^verbatim>\<open>is_file\<close>, \<^verbatim>\<open>is_dir\<close> and \<^verbatim>\<open>exists\<close> raise again.\<close>

definition regular :: "fs \<Rightarrow> path \<Rightarrow> bool" where
  "regular t p = (case lookup t p of Some (File c m a v) \<Rightarrow> True | _ \<Rightarrow> False)"

definition stat_raises :: "fs \<Rightarrow> path \<Rightarrow> bool" where
  "stat_raises t p = (case lookup t p of Some (Unstatable e) \<Rightarrow> \<not> ignore_error e | _ \<Rightarrow> False)"

text \<open>The record that \<^verbatim>\<open>scan_directory\<close> makes for a regular file.\<close>

definition record_of :: "fs \<Rightarrow> path \<Rightarrow> file_info" where
  "record_of t p = \<lparr>path = p, modified_at = modified (the (lookup t p))\<rparr>"

definition scanned :: "fs \<Rightarrow> path list \<Rightarrow> file_info list" where
  "scanned t items =
     map (record_of t) (filter (\<lambda>p. regular t p \<and> \<not> startswith (name p) ''.'') items)"

text \<open>
  What \<^verbatim>\<open>find_duplicates\<close> hashes: a regular file that can be opened and whose name does
  not start with a dot; and the digest of a file's content.
\<close>

definition hashable :: "fs \<Rightarrow> path \<Rightarrow> bool" where
  "hashable t p =
     (case lookup t p of
        Some (File c m a v) \<Rightarrow> a \<and> \<not> startswith (name p) ''.''
      | _ \<Rightarrow> False)"

definition digest_of :: "(content \<Rightarrow> digest) \<Rightarrow> fs \<Rightarrow> path \<Rightarrow> digest" where
  "digest_of md5 t p = md5 (content (the (lookup t p)))"

text \<open>
  \<open>grows t t1\<close>: the tree \<open>t1\<close> is \<open>t\<close> with directories added at free paths.

  \<open>run_inv t0 root log U t\<close> relates the tree \<open>t\<close> in the middle of a run to the tree
  \<open>t0\<close> at its start: \<open>log\<close> are the moves done so far and \<open>U\<close> the scanned files still
  to be handled. Every moved file was a movable regular file directly under the root and
  is now at its destination, which lies deeper; no source and no destination occurs
  twice; the files still to be handled are where and what they were; and no entry that
  cannot be examined has appeared.

  \<open>restorable root ms t\<close>: in \<open>t\<close> every destination of the log \<open>ms\<close> holds a movable file
  and every source path is free.
\<close>

definition grows :: "fs \<Rightarrow> fs \<Rightarrow> bool" where
  "grows t t1 = (\<forall>q. lookup t1 q = lookup t q \<or> (lookup t q = None \<and> lookup t1 q = Some Dir))"

definition run_inv :: "fs \<Rightarrow> path \<Rightarrow> move list \<Rightarrow> path set \<Rightarrow> fs \<Rightarrow> bool" where
  "run_inv t0 root log U t =
     (lookup t root = Some Dir \<and>
      (\<forall>(a, b) \<in> set log.
          a \<noteq> [] \<and> parent a = root \<and> length root + 1 < length b \<and>
          (\<exists>c m x. lookup t0 a = Some (File c m x True)) \<and> lookup t b = lookup t0 a) \<and>
      distinct (map fst log) \<and> distinct (map snd log) \<and>
      fst ` set log \<inter> U = {} \<and>
      (\<forall>p \<in> U. p \<noteq> [] \<and> parent p = root \<and> regular t0 p \<and> lookup t p = lookup t0 p) \<and>
      (\<forall>p e. lookup t p = Some (Unstatable e) \<longrightarrow> lookup t0 p = Some (Unstatable e)))"

definition restorable :: "path \<Rightarrow> move list \<Rightarrow> fs \<Rightarrow> bool" where
  "restorable root ms t =
     (lookup t root = Some Dir \<and> distinct (map fst ms) \<and> distinct (map snd ms) \<and>
      (\<forall>(a, b) \<in> set ms.
          a \<noteq> [] \<and> parent a = root \<and> length root + 1 < length b \<and>
          (\<exists>c m x. lookup t b = Some (File c m x True)) \<and> lookup t a = None))"

section \<open>Basic facts about the tree and the loops\<close>

lemma lookup_fs_put [simp]: "lookup (fs_put p n t) q = (if q = p then Some n else lookup t q)"
  by (simp add: lookup_def fs_put_def update_conv')

lemma lookup_fs_del [simp]: "lookup (fs_del p t) q = (if q = p then None else lookup t q)"
  by (simp add: lookup_def fs_del_def delete_conv')

text \<open>One iteration of each loop, for a call that returns.\<close>

lemma move_files_step:
  assumes "move_files d (f # files) self t n = (Inr n', self', t')"
  obtains (skipped) dest e where "resolve_destination t d (name (path f)) = Inr dest"
      and "shutil_move t (path f) dest = Inl e"
      and "move_files d files self t n = (Inr n', self', t')"
    | (moved) dest t1 where "resolve_destination t d (name (path f)) = Inr dest"
      and "shutil_move t (path f) dest = Inr t1"
      and "move_files d files (self\<lparr>moves := moves self @ [(path f, dest)]\<rparr>) t1 (Suc n)
             = (Inr n', self', t')"
  using assms by (auto simp: Let_def split: sum.splits)

lemma move_categories_step:
  assumes "move_categories dir ((c, files) # rest) self t n = (Inr n', self', t')"
  obtains t1 n1 self1 t2 where "mkdir_exist_ok t (dir @ [c]) = Inr t1"
      and "move_files (dir @ [c]) files self t1 n = (Inr n1, self1, t2)"
      and "move_categories dir rest self1 t2 n1 = (Inr n', self', t')"
  using assms by (auto simp: Let_def split: sum.splits prod.splits)

lemma move_dates_step:
  assumes "move_dates dir ((k, files) # rest) self t n = (Inr n', self', t')"
  obtains t1 n1 self1 t2 where "mkdir_parents t (dir @ path_parts k) = (Inr (), t1)"
      and "move_files (dir @ path_parts k) files self t1 n = (Inr n1, self1, t2)"
      and "move_dates dir rest self1 t2 n1 = (Inr n', self', t')"
  using assms by (auto simp: Let_def split: sum.splits prod.splits)

lemma organize_by_category_run:
  assumes "organize_by_category False now self t = (Inr r, self', t')"
  obtains groups n t1 where "scan_directory self t = Inr groups"
    and "move_categories (source_dir self) groups self t 0 = (Inr n, self', t1)"
    and "save_history now self' t1 = Inr t'" and "r = Some n"
  using assms by (auto simp: organize_by_category_def split: sum.splits prod.splits)

lemma organize_by_date_run:
  assumes "organize_by_date False now self t = (Inr r, self', t')"
  obtains groups n t1 where "scan_directory self t = Inr groups"
    and "move_dates (source_dir self) (group_by_date (concat (map snd groups)) []) self t 0
           = (Inr n, self', t1)"
    and "save_history now self' t1 = Inr t'" and "r = Some n"
  using assms by (auto simp: organize_by_date_def Let_def split: sum.splits prod.splits)

text \<open>The loops change \<^verbatim>\<open>self.moves\<close> only.\<close>

lemma move_files_fields:
  "move_files d files self t n = (Inr n', self', t') \<Longrightarrow>
     source_dir self' = source_dir self \<and> history_file self' = history_file self"
proof (induction files arbitrary: self t n)
  case Nil
  then show ?case by simp
next
  case (Cons f files)
  from Cons.prems show ?case
  proof (cases rule: move_files_step)
    case (skipped dest e)
    then show ?thesis using Cons.IH by blast
  next
    case (moved dest t1)
    from Cons.IH [OF moved(3)] show ?thesis by simp
  qed
qed

lemma move_categories_fields:
  "move_categories d groups self t n = (Inr n', self', t') \<Longrightarrow>
     source_dir self' = source_dir self \<and> history_file self' = history_file self"
proof (induction groups arbitrary: self t n)
  case Nil
  then show ?case by simp
next
  case (Cons g groups)
  obtain c files where g: "g = (c, files)" by (cases g)
  from Cons.prems [unfolded g] show ?case
  proof (cases rule: move_categories_step)
    case (1 t1 n1 self1 t2)
    with Cons.IH [OF 1(3)] move_files_fields [OF 1(2)] show ?thesis by simp
  qed
qed

lemma move_dates_fields:
  "move_dates d groups self t n = (Inr n', self', t') \<Longrightarrow>
     source_dir self' = source_dir self \<and> history_file self' = history_file self"
proof (induction groups arbitrary: self t n)
  case Nil
  then show ?case by simp
next
  case (Cons g groups)
  obtain c files where g: "g = (c, files)" by (cases g)
  from Cons.prems [unfolded g] show ?case
  proof (cases rule: move_dates_step)
    case (1 t1 n1 self1 t2)
    with Cons.IH [OF 1(3)] move_files_fields [OF 1(2)] show ?thesis by simp
  qed
qed

lemma write_file_lookup:
  "write_file t p c now = Inr t' \<Longrightarrow>
     (\<exists>a v. lookup t' p = Some (File c now a v)) \<and> (\<forall>q. q \<noteq> p \<longrightarrow> lookup t' q = lookup t q)"
  by (auto simp: write_file_def split: option.splits node.splits if_splits)

section \<open>Dry runs\<close>

text \<open>
  Claim C7. A dry-run organization, by category or by date, performs no filesystem
  mutation: whatever it returns or raises, it leaves the tree (so also the log file, or
  its absence) and the object's recorded moves exactly as they were.
\<close>

theorem dry_run_changes_nothing:
  "snd (organize_by_category True now self t) = (self, t) \<and>
   snd (organize_by_date True now self t) = (self, t)"
  by (simp add: organize_by_category_def organize_by_date_def Let_def split: sum.splits)

section \<open>Undo of an empty log\<close>

text \<open>
  Claim C3 says that undo, on a log without moves, fails with \<open>EmptyHistory\<close> and deletes
  the log. The method returns before \<^verbatim>\<open>self.history_file.unlink()\<close>: in
  \<open>empty_log_root\<close> the log is still there afterwards.
\<close>

theorem undo_empty_log_not_cleared:
  "fst (undo_last_organization (init home) empty_log_root) = Inr EmptyHistory \<and>
   lookup (snd (undo_last_organization (init home) empty_log_root))
     (history_file (init home)) \<noteq> None"
  by code_simp

text \<open>
  Claim C3, amended. For every root whose persisted log exists, can be read and contains
  zero move entries, undo fails with \<open>EmptyHistory\<close> and leaves the log, and the whole
  tree, as they were.
\<close>

theorem undo_empty_log_unchanged:
  assumes "lookup t (history_file self) = Some (File (History stamp []) m True v)"
  shows "undo_last_organization self t = (Inr EmptyHistory, t)"
  using assms
  by (simp add: undo_last_organization_def path_exists_def stat_test_def stat_def
      read_file_def json_load_moves_def)

theorem undo_empty_log_unchanged_witness:
  "lookup empty_log_root (history_file (init home)) = Some (File (History noon []) noon True True)
   \<and> undo_last_organization (init home) empty_log_root = (Inr EmptyHistory, empty_log_root)"
proof -
  have log: "lookup empty_log_root (history_file (init home))
               = Some (File (History noon []) noon True True)"
    by code_simp
  from log undo_empty_log_unchanged [OF log] show ?thesis by simp
qed

section \<open>When the log is written\<close>

text \<open>
  Claim C4 says that a real run writes the log if and only if at least one move
  succeeded. \<^verbatim>\<open>save_history()\<close> is called at the end of every real run: organizing the
  empty directory moves nothing, and a log that was not there before is written.
\<close>

theorem log_written_without_moves:
  "lookup empty_root (history_file (init home)) = None \<and>
   organize_by_category False noon (init home) empty_root
     = (Inr (Some 0), init home,
        empty_root @ [(history_file (init home), File (History noon []) noon True True)])"
  by code_simp

text \<open>
  Claim C4, amended. Every real organization run that returns, by category or by date,
  has written the transaction log at its end, whether or not a move succeeded: the log
  file then holds the moves the object has recorded, whatever it held before.
\<close>

theorem log_always_written:
  "(organize_by_category False now self t = (Inr r, self', t') \<longrightarrow>
      (\<exists>a v. lookup t' (history_file self) = Some (File (History now (moves self')) now a v))) \<and>
   (organize_by_date False now self t = (Inr r, self', t') \<longrightarrow>
      (\<exists>a v. lookup t' (history_file self) = Some (File (History now (moves self')) now a v)))"
proof (intro conjI impI)
  assume "organize_by_category False now self t = (Inr r, self', t')"
  then show "\<exists>a v. lookup t' (history_file self) = Some (File (History now (moves self')) now a v)"
  proof (cases rule: organize_by_category_run)
    case (1 groups n t1)
    from move_categories_fields [OF 1(2)] write_file_lookup [OF 1(3) [unfolded save_history_def]]
    show ?thesis by simp
  qed
next
  assume "organize_by_date False now self t = (Inr r, self', t')"
  then show "\<exists>a v. lookup t' (history_file self) = Some (File (History now (moves self')) now a v)"
  proof (cases rule: organize_by_date_run)
    case (1 groups n t1)
    from move_dates_fields [OF 1(2)] write_file_lookup [OF 1(3) [unfolded save_history_def]]
    show ?thesis by simp
  qed
qed

theorem log_always_written_witness:
  "organize_by_category False noon (init home) empty_log_root
     = (Inr (Some 0), init home, empty_log_root) \<and>
   organize_by_date False noon (init home) empty_log_root
     = (Inr (Some 0), init home, empty_log_root) \<and>
   (\<exists>a v. lookup empty_log_root (history_file (init home))
            = Some (File (History noon (moves (init home))) noon a v))"
proof -
  have c: "organize_by_category False noon (init home) empty_log_root
             = (Inr (Some 0), init home, empty_log_root)"
    by code_simp
  have d: "organize_by_date False noon (init home) empty_log_root
             = (Inr (Some 0), init home, empty_log_root)"
    by code_simp
  from log_always_written [of noon "init home" empty_log_root "Some 0" "init home" empty_log_root]
    c d
  show ?thesis by blast
qed

section \<open>Dictionaries of lists\<close>

lemma members_Nil [simp]: "members [] = []"
  by (simp add: members_def)

lemma members_Cons [simp]: "members ((k, vs) # g) = vs @ members g"
  by (simp add: members_def)

lemma map_of_dict_append:
  "map_of (dict_append k v g) k' =
     (if k' = k then Some ((case map_of g k of None \<Rightarrow> [] | Some vs \<Rightarrow> vs) @ [v])
      else map_of g k')"
  by (induction k v g rule: dict_append.induct) auto

lemma keys_dict_append: "fst ` set (dict_append k v g) = insert k (fst ` set g)"
  by (induction k v g rule: dict_append.induct) auto

lemma distinct_keys_dict_append:
  "distinct (map fst (dict_append k v g)) = distinct (map fst g)"
  by (induction k v g rule: dict_append.induct) (auto simp: keys_dict_append)

lemma set_members_dict_append:
  "set (members (dict_append k v g)) = insert v (set (members g))"
  by (induction k v g rule: dict_append.induct) auto

lemma distinct_members_dict_append:
  "distinct (members (dict_append k v g)) \<longleftrightarrow> distinct (members g) \<and> v \<notin> set (members g)"
  by (induction k v g rule: dict_append.induct) (auto simp: set_members_dict_append)

lemma dict_append_values:
  "(k', vs) \<in> set (dict_append k v g) \<Longrightarrow>
     (k', vs) \<in> set g \<or> (k' = k \<and> (\<exists>ws. vs = ws @ [v] \<and> (ws = [] \<or> (k, ws) \<in> set g)))"
  by (induction k v g rule: dict_append.induct) (auto split: if_splits)

lemma grouped_Nil [simp]: "grouped key [] g = g"
  by (simp add: grouped_def)

lemma grouped_Cons [simp]: "grouped key (x # xs) g = grouped key xs (dict_append (key x) x g)"
  by (simp add: grouped_def)

lemma map_of_grouped:
  "map_of (grouped key xs g) k =
     (case map_of g k of
        None \<Rightarrow> if filter (\<lambda>x. key x = k) xs = [] then None
                else Some (filter (\<lambda>x. key x = k) xs)
      | Some vs \<Rightarrow> Some (vs @ filter (\<lambda>x. key x = k) xs))"
  by (induction xs arbitrary: g) (auto simp: map_of_dict_append split: option.splits)

lemma map_of_grouped_member:
  "x \<in> set xs \<Longrightarrow> map_of (grouped key xs []) (key x) = Some (filter (\<lambda>y. key y = key x) xs)"
proof -
  assume "x \<in> set xs"
  then have "filter (\<lambda>y. key y = key x) xs \<noteq> []"
    by (induction xs) auto
  then show ?thesis by (simp add: map_of_grouped)
qed

lemma distinct_keys_grouped: "distinct (map fst (grouped key xs g)) = distinct (map fst g)"
  by (induction xs arbitrary: g) (auto simp: distinct_keys_dict_append)

lemma set_members_grouped:
  "set (members (grouped key xs g)) = set xs \<union> set (members g)"
  by (induction xs arbitrary: g) (auto simp: set_members_dict_append)

lemma distinct_members_grouped:
  "distinct (members (grouped key xs g))
     \<longleftrightarrow> distinct xs \<and> distinct (members g) \<and> set xs \<inter> set (members g) = {}"
  by (induction xs arbitrary: g)
     (auto simp: distinct_members_dict_append set_members_dict_append)

lemma keyed_dict_append: "keyed key g \<Longrightarrow> keyed key (dict_append (key x) x g)"
  unfolding keyed_def by (fastforce dest!: dict_append_values)

lemma keyed_grouped: "keyed key g \<Longrightarrow> keyed key (grouped key xs g)"
  by (induction xs arbitrary: g) (auto simp: keyed_dict_append)

lemma keyed_Nil [simp]: "keyed key []"
  by (simp add: keyed_def)

lemma group_by_date_grouped:
  "group_by_date files g = grouped (\<lambda>f. date_key (modified_at f)) files g"
  by (induction files arbitrary: g) auto


section \<open>The scanner and an entry that cannot be examined\<close>

lemma stat_test_value:
  "\<not> stat_raises t p \<Longrightarrow>
     stat_test P t p = Inr (case lookup t p of None \<Rightarrow> False | Some (Unstatable e) \<Rightarrow> False
                                              | Some n \<Rightarrow> P n)"
  by (auto simp: stat_test_def stat_def stat_raises_def ignore_error_def
      split: option.splits node.splits)

lemma stat_test_raises:
  "stat_raises t p \<Longrightarrow> \<exists>e. stat_test P t p = Inl (OSError e) \<and> \<not> ignore_error e"
  by (auto simp: stat_test_def stat_def stat_raises_def split: option.splits node.splits)

lemma is_file_regular: "\<not> stat_raises t p \<Longrightarrow> is_file t p = Inr (regular t p)"
  by (auto simp: is_file_def stat_test_value regular_def split: option.splits node.splits)

lemma stat_regular: "regular t p \<Longrightarrow> stat t p = Inr (the (lookup t p))"
  by (auto simp: stat_def regular_def split: option.splits node.splits)

lemma scan_items_ok:
  "\<forall>p \<in> set items. \<not> stat_raises t p \<Longrightarrow>
     scan_items t items g = Inr (grouped (\<lambda>f. get_file_category (path f)) (scanned t items) g)"
proof (induction items arbitrary: g)
  case Nil
  then show ?case by (simp add: scanned_def)
next
  case (Cons p items)
  then have "\<not> stat_raises t p" by simp
  with Cons show ?case
    by (simp add: is_file_regular stat_regular scanned_def record_of_def)
qed

lemma scan_items_raises:
  "\<exists>p \<in> set items. stat_raises t p \<Longrightarrow>
     \<exists>e. scan_items t items g = Inl (OSError e) \<and> \<not> ignore_error e"
proof (induction items arbitrary: g)
  case Nil
  then show ?case by simp
next
  case (Cons p items)
  show ?case
  proof (cases "stat_raises t p")
    case True
    from stat_test_raises [OF this, of "\<lambda>n. case n of File c m a v \<Rightarrow> True | _ \<Rightarrow> False"]
    show ?thesis
      by (auto simp: is_file_def)
  next
    case False
    with Cons.prems have "\<exists>q \<in> set items. stat_raises t q" by auto
    from Cons.IH [OF this] False show ?thesis
      by (simp add: is_file_regular stat_regular)
  qed
qed

text \<open>
  Claim C2 says that a failure to stat one entry does not abort the scan. Nothing in
  \<^verbatim>\<open>scan_directory\<close> catches an exception: in \<open>locked_entry\<close> the scan raises
  \<^verbatim>\<open>PermissionError\<close> at \<^verbatim>\<open>vault\<close> and returns no record, neither for \<^verbatim>\<open>notes.txt\<close>
  before it nor for \<^verbatim>\<open>cat.png\<close> after it.
\<close>

theorem scan_aborts_on_stat_failure:
  "scan_directory (init home) locked_entry = Inl (OSError EACCES)"
  by code_simp

text \<open>
  Claim C2, amended. For every scan of a directory: if \<^verbatim>\<open>stat\<close> fails on no entry, or
  only with the errors that \<^verbatim>\<open>is_file\<close> takes for ``not there'' (\<open>ENOENT\<close>, \<open>ENOTDIR\<close>,
  \<open>EBADF\<close>, \<open>ELOOP\<close>), such entries are skipped, without a diagnostic, and the scan
  returns exactly one record for every other regular file that is not hidden, under its
  category; a failure to stat an entry with any other error aborts the scan with that
  error.
\<close>

theorem scan_stat_failures:
  assumes "lookup t (source_dir self) = Some Dir"
  shows "((\<forall>p \<in> set (children t (source_dir self)). \<not> stat_raises t p) \<longrightarrow>
            (\<exists>groups. scan_directory self t = Inr groups \<and>
               set (members groups)
                 = record_of t ` {p \<in> set (children t (source_dir self)).
                                    regular t p \<and> \<not> startswith (name p) ''.''} \<and>
               (\<forall>(category, files) \<in> set groups.
                   \<forall>f \<in> set files. get_file_category (path f) = category))) \<and>
         ((\<exists>p \<in> set (children t (source_dir self)). stat_raises t p) \<longrightarrow>
            (\<exists>e. scan_directory self t = Inl (OSError e) \<and> \<not> ignore_error e))"
proof (intro conjI impI)
  assume ok: "\<forall>p \<in> set (children t (source_dir self)). \<not> stat_raises t p"
  let ?g = "grouped (\<lambda>f. get_file_category (path f)) (scanned t (children t (source_dir self))) []"
  have "scan_directory self t = Inr ?g"
    using assms scan_items_ok [OF ok] by (simp add: scan_directory_def iterdir_def)
  moreover have "set (members ?g)
       = record_of t ` {p \<in> set (children t (source_dir self)).
                          regular t p \<and> \<not> startswith (name p) ''.''}"
    by (simp add: set_members_grouped scanned_def)
  moreover have "keyed (\<lambda>f. get_file_category (path f)) ?g"
    by (rule keyed_grouped) simp
  then have "\<forall>(category, files) \<in> set ?g. \<forall>f \<in> set files. get_file_category (path f) = category"
    by (auto simp: keyed_def)
  ultimately show "\<exists>groups. scan_directory self t = Inr groups \<and>
               set (members groups)
                 = record_of t ` {p \<in> set (children t (source_dir self)).
                                    regular t p \<and> \<not> startswith (name p) ''.''} \<and>
               (\<forall>(category, files) \<in> set groups.
                   \<forall>f \<in> set files. get_file_category (path f) = category)"
    by blast
next
  assume "\<exists>p \<in> set (children t (source_dir self)). stat_raises t p"
  from scan_items_raises [OF this] assms
  show "\<exists>e. scan_directory self t = Inl (OSError e) \<and> \<not> ignore_error e"
    by (simp add: scan_directory_def iterdir_def)
qed

theorem scan_stat_failures_witness:
  "lookup dangling_entry (source_dir (init home)) = Some Dir \<and>
   list_all (\<lambda>p. \<not> stat_raises dangling_entry p)
     (children dangling_entry (source_dir (init home))) \<and>
   (\<exists>groups. scan_directory (init home) dangling_entry = Inr groups) \<and>
   lookup locked_entry (source_dir (init home)) = Some Dir \<and>
   (\<exists>p \<in> set (children locked_entry (source_dir (init home))). stat_raises locked_entry p) \<and>
   (\<exists>e. scan_directory (init home) locked_entry = Inl (OSError e))"
proof -
  have d: "lookup dangling_entry (source_dir (init home)) = Some Dir"
    by code_simp
  have ok: "\<forall>p \<in> set (children dangling_entry (source_dir (init home))).
              \<not> stat_raises dangling_entry p"
    by code_simp
  have l: "lookup locked_entry (source_dir (init home)) = Some Dir"
    by code_simp
  have bad: "\<exists>p \<in> set (children locked_entry (source_dir (init home))).
               stat_raises locked_entry p"
    by code_simp
  from scan_stat_failures [OF d, THEN conjunct1, THEN mp, OF ok]
  have r1: "\<exists>groups. scan_directory (init home) dangling_entry = Inr groups"
    by (elim exE conjE) (rule exI)
  from scan_stat_failures [OF l, THEN conjunct2, THEN mp, OF bad]
  have r2: "\<exists>e. scan_directory (init home) locked_entry = Inl (OSError e)"
    by (elim exE conjE) (rule exI)
  from ok have ok': "list_all (\<lambda>p. \<not> stat_raises dangling_entry p)
                      (children dangling_entry (source_dir (init home)))"
    by (simp add: list_all_iff)
  from d ok' l bad r1 r2 show ?thesis by (intro conjI)
qed

section \<open>Buckets by date\<close>

lemma str_nat_2023: "str_nat 2023 = ''2023''"
  by code_simp

lemma date_key_2023_March: "year d = 2023 \<Longrightarrow> month d = 3 \<Longrightarrow> date_key d = ''2023/March''"
  by (simp add: date_key_def month_name_def str_nat_2023)

lemma date_key_same_month:
  "year d1 = year d2 \<Longrightarrow> month d1 = month d2 \<Longrightarrow> date_key d1 = date_key d2"
  by (simp add: date_key_def)

text \<open>
  Claim C9. Date-based organization derives a file's bucket from its modification time
  as \<^verbatim>\<open><year>/<month name>\<close>: among the files to organize, a file modified on any
  day of March 2023 (the 15th, say) is put in the group with key \<^verbatim>\<open>2023/March\<close>, and
  two files modified in the same month of the same year are put in the same group,
  whatever the day.
\<close>

theorem date_bucketing:
  "(\<forall>f \<in> set all_files. year (modified_at f) = 2023 \<and> month (modified_at f) = 3 \<longrightarrow>
       (\<exists>files. map_of (group_by_date all_files []) ''2023/March'' = Some files \<and> f \<in> set files))
   \<and> (\<forall>f \<in> set all_files. \<forall>g \<in> set all_files.
         year (modified_at f) = year (modified_at g) \<and>
         month (modified_at f) = month (modified_at g) \<longrightarrow>
         (\<exists>files. map_of (group_by_date all_files []) (date_key (modified_at f)) = Some files
                   \<and> f \<in> set files \<and> g \<in> set files))"
proof (intro conjI ballI impI)
  fix f
  assume f: "f \<in> set all_files"
    and d: "year (modified_at f) = 2023 \<and> month (modified_at f) = 3"
  then have key: "date_key (modified_at f) = ''2023/March''"
    by (simp add: date_key_2023_March)
  let ?files = "filter (\<lambda>x. date_key (modified_at x) = ''2023/March'') all_files"
  from f key have "f \<in> set ?files" by simp
  moreover from map_of_grouped_member [OF f, of "\<lambda>x. date_key (modified_at x)"] key
  have "map_of (group_by_date all_files []) ''2023/March'' = Some ?files"
    by (simp add: group_by_date_grouped)
  ultimately show "\<exists>files. map_of (group_by_date all_files []) ''2023/March'' = Some files
                     \<and> f \<in> set files"
    by blast
next
  fix f g
  assume f: "f \<in> set all_files" and g: "g \<in> set all_files"
    and d: "year (modified_at f) = year (modified_at g) \<and>
            month (modified_at f) = month (modified_at g)"
  then have key: "date_key (modified_at g) = date_key (modified_at f)"
    by (simp add: date_key_def)
  let ?files = "filter (\<lambda>x. date_key (modified_at x) = date_key (modified_at f)) all_files"
  from f g key have in_files: "f \<in> set ?files" "g \<in> set ?files" by simp_all
  moreover from map_of_grouped_member [OF f, of "\<lambda>x. date_key (modified_at x)"]
  have "map_of (group_by_date all_files []) (date_key (modified_at f)) = Some ?files"
    by (simp add: group_by_date_grouped)
  ultimately show "\<exists>files. map_of (group_by_date all_files []) (date_key (modified_at f)) = Some files
                     \<and> f \<in> set files \<and> g \<in> set files"
    by blast
qed


theorem date_bucketing_witness:
  "year (modified_at \<lparr>path = home @ [''a''], modified_at = noon\<rparr>) = 2023 \<and>
   month (modified_at \<lparr>path = home @ [''a''], modified_at = noon\<rparr>) = 3 \<and>
   (\<exists>files. map_of (group_by_date [\<lparr>path = home @ [''a''], modified_at = noon\<rparr>,
                                    \<lparr>path = home @ [''b''], modified_at = later\<rparr>] [])
               ''2023/March'' = Some files \<and>
            \<lparr>path = home @ [''a''], modified_at = noon\<rparr> \<in> set files)"
  using date_bucketing [of "[\<lparr>path = home @ [''a''], modified_at = noon\<rparr>,
                             \<lparr>path = home @ [''b''], modified_at = later\<rparr>]"]
  by (simp add: noon_def)

section \<open>Facts about the tree\<close>

lemma lookup_None_iff: "lookup t p = None \<longleftrightarrow> p \<notin> fst ` set t"
  by (simp add: lookup_def map_of_eq_None_iff)

lemma set_children: "set (children t d) = {p. p \<noteq> [] \<and> parent p = d \<and> lookup t p \<noteq> None}"
  by (auto simp: children_def lookup_None_iff)

lemma children_empty_iff:
  "children t d = [] \<longleftrightarrow> (\<forall>p. p \<noteq> [] \<and> parent p = d \<longrightarrow> lookup t p = None)"
proof -
  have "children t d = [] \<longleftrightarrow> set (children t d) = {}" by simp
  also have "\<dots> \<longleftrightarrow> (\<forall>p. p \<noteq> [] \<and> parent p = d \<longrightarrow> lookup t p = None)"
    unfolding set_children by auto
  finally show ?thesis .
qed

lemma is_dir_Inr: "is_dir t p = Inr b \<Longrightarrow> b = (lookup t p = Some Dir)"
  by (auto simp: is_dir_def stat_test_def stat_def
      split: option.splits node.splits sum.splits error.splits if_splits)

lemma parent_not_self: "p \<noteq> [] \<Longrightarrow> parent p \<noteq> p"
  by (metis parent_def length_butlast diff_less length_greater_0_conv less_numeral_extra(1) nat_neq_iff)

lemma remove_empty_dirs_step:
  assumes "remove_empty_dirs (item # items) t = (Inr (), t')"
  obtains (removed) "lookup t item = Some Dir" and "children t item = []"
      and "remove_empty_dirs items (fs_del item t) = (Inr (), t')"
    | (kept) "\<not> (lookup t item = Some Dir \<and> children t item = [])"
      and "remove_empty_dirs items t = (Inr (), t')"
proof (cases "is_dir t item")
  case (Inl e)
  with assms show ?thesis by simp
next
  case (Inr b)
  note b = is_dir_Inr [OF Inr]
  show ?thesis
  proof (cases "lookup t item = Some Dir \<and> children t item = []")
    case True
    with assms Inr b have "remove_empty_dirs items (fs_del item t) = (Inr (), t')"
      by (simp add: iterdir_def rmdir_def)
    with True show ?thesis by (intro removed) simp_all
  next
    case False
    with assms Inr b have "remove_empty_dirs items t = (Inr (), t')"
      by (auto simp: iterdir_def split: if_splits)
    with False show ?thesis by (intro kept)
  qed
qed

lemma remove_empty_dirs_effect:
  assumes "remove_empty_dirs items t = (Inr (), t')"
    and "\<forall>i \<in> set items. i \<noteq> [] \<and> parent i = root"
  shows "lookup t' p =
           (if p \<in> set items \<and> lookup t p = Some Dir \<and> children t p = [] then None
            else lookup t p)"
  using assms
proof (induction items arbitrary: t)
  case Nil
  then show ?case by simp
next
  case (Cons item items)
  from Cons.prems(2) have rest: "\<forall>i \<in> set items. i \<noteq> [] \<and> parent i = root"
    and item: "item \<noteq> []" "parent item = root"
    by simp_all
  from Cons.prems(1) show ?case
  proof (cases rule: remove_empty_dirs_step)
    case removed
    note IH = Cons.IH [OF removed(3) rest]
    show ?thesis
    proof (cases "p = item")
      case True
      with IH removed show ?thesis by simp
    next
      case False
      have "children (fs_del item t) p = [] \<longleftrightarrow> children t p = []" if "p \<in> set items"
      proof -
        from that rest have "p \<noteq> []" "parent p = root" by auto
        then have "p \<noteq> root" using parent_not_self [of p] by metis
        with item show ?thesis by (auto simp: children_empty_iff)
      qed
      with IH False show ?thesis by auto
    qed
  next
    case kept
    note IH = Cons.IH [OF kept(2) rest]
    with kept(1) show ?thesis by auto
  qed
qed


lemma path_exists_Inr: "path_exists t p = Inr b \<Longrightarrow>
    b = (case lookup t p of None \<Rightarrow> False | Some (Unstatable e) \<Rightarrow> False | Some n \<Rightarrow> True)"
  by (auto simp: path_exists_def stat_test_def stat_def
      split: option.splits node.splits sum.splits error.splits if_splits)

lemma undo_complete:
  assumes "undo_last_organization self t = (Inr UndoComplete, t')"
  obtains c ms t2 where "read_file t (history_file self) = Inr c"
    and "json_load_moves c = Inr ms" and "ms \<noteq> []"
    and "remove_empty_dirs (children (restore_moves (rev ms) t) (source_dir self))
           (restore_moves (rev ms) t) = (Inr (), t2)"
    and "lookup (restore_moves (rev ms) t) (source_dir self) = Some Dir"
    and "unlink t2 (history_file self) = Inr t'"
  using assms
  by (auto simp: undo_last_organization_def Let_def iterdir_def
      split: sum.splits if_splits prod.splits option.splits node.splits)

section \<open>Undo removes the empty directories under the root\<close>

text \<open>
  Claim C10. When undo runs to its end, then of the directories directly under the root,
  as they are after the moves were replayed, every empty one is removed, whoever made it
  and whatever its name, and every other one stays with its entries as they were.
\<close>

theorem undo_removes_empty_children:
  assumes log: "lookup t (history_file self) = Some (File (History stamp ms) m a v)"
    and hist: "history_file self \<noteq> []" "parent (history_file self) = source_dir self"
    and undo: "undo_last_organization self t = (Inr UndoComplete, t')"
  shows "\<forall>d. d \<noteq> [] \<and> parent d = source_dir self \<and>
             lookup (restore_moves (rev ms) t) d = Some Dir \<longrightarrow>
           (if children (restore_moves (rev ms) t) d = [] then lookup t' d = None
            else lookup t' d = Some Dir \<and>
                 (\<forall>q. q \<noteq> [] \<and> parent q = d \<longrightarrow>
                      lookup t' q = lookup (restore_moves (rev ms) t) q))"
proof (intro allI impI)
  fix d
  let ?t1 = "restore_moves (rev ms) t"
  let ?root = "source_dir self"
  assume d: "d \<noteq> [] \<and> parent d = ?root \<and> lookup ?t1 d = Some Dir"
  from undo obtain c ms' t2 where rd: "read_file t (history_file self) = Inr c"
    and js: "json_load_moves c = Inr ms'"
    and cleanup: "remove_empty_dirs (children (restore_moves (rev ms') t) ?root)
                    (restore_moves (rev ms') t) = (Inr (), t2)"
    and ul: "unlink t2 (history_file self) = Inr t'"
    by (rule undo_complete)
  from rd js log have "ms' = ms"
    by (auto simp: read_file_def json_load_moves_def split: if_splits)
  with cleanup have cleanup: "remove_empty_dirs (children ?t1 ?root) ?t1 = (Inr (), t2)"
    by simp
  have kids: "\<forall>i \<in> set (children ?t1 ?root). i \<noteq> [] \<and> parent i = ?root"
    by (simp add: set_children)
  note eff = remove_empty_dirs_effect [OF cleanup kids]
  from ul have t': "t' = fs_del (history_file self) t2"
    and h2: "lookup t2 (history_file self) \<noteq> None" "lookup t2 (history_file self) \<noteq> Some Dir"
    by (auto simp: unlink_def split: option.splits node.splits)
  from h2 eff [of "history_file self"] have h1: "lookup ?t1 (history_file self) \<noteq> Some Dir"
    by (auto split: if_splits)
  with d have dh: "d \<noteq> history_file self" by auto
  from d have d_in: "d \<in> set (children ?t1 ?root)" by (simp add: set_children)
  from d have "d \<noteq> ?root" using parent_not_self [of d] by metis
  show "if children ?t1 d = [] then lookup t' d = None
        else lookup t' d = Some Dir \<and>
             (\<forall>q. q \<noteq> [] \<and> parent q = d \<longrightarrow> lookup t' q = lookup ?t1 q)"
  proof (cases "children ?t1 d = []")
    case True
    with eff [of d] d d_in dh t' show ?thesis by simp
  next
    case False
    have "lookup t' q = lookup ?t1 q" if "q \<noteq> []" "parent q = d" for q
    proof -
      from that \<open>d \<noteq> ?root\<close> have "q \<notin> set (children ?t1 ?root)"
        by (simp add: set_children)
      moreover from that \<open>d \<noteq> ?root\<close> hist have "q \<noteq> history_file self" by auto
      ultimately show ?thesis using eff [of q] t' by simp
    qed
    with False eff [of d] d dh t' show ?thesis by simp
  qed
qed

theorem undo_removes_empty_children_witness:
  "undo_last_organization (init home) organized_home = (Inr UndoComplete, restored_home) \<and>
   lookup restored_home (home @ [''old'']) = None \<and>
   lookup restored_home (home @ [''.cache'']) = None \<and>
   lookup restored_home (home @ [''keep'']) = Some Dir"
proof -
  let ?ms = "[(home @ [''notes.txt''], home @ [''Documents'', ''notes.txt''])]"
  let ?t1 = "restore_moves (rev ?ms) organized_home"
  have log: "lookup organized_home (history_file (init home))
               = Some (File (History noon ?ms) noon True True)"
    by code_simp
  have h1: "history_file (init home) \<noteq> []"
    and h2: "parent (history_file (init home)) = source_dir (init home)"
    by code_simp+
  have undo: "undo_last_organization (init home) organized_home = (Inr UndoComplete, restored_home)"
    by code_simp
  note rule = undo_removes_empty_children [OF log h1 h2 undo, rule_format]
  have old: "home @ [''old''] \<noteq> [] \<and> parent (home @ [''old'']) = source_dir (init home) \<and>
             lookup ?t1 (home @ [''old'']) = Some Dir"
    and old_empty: "children ?t1 (home @ [''old'']) = []"
    by code_simp+
  have cache: "home @ [''.cache''] \<noteq> [] \<and> parent (home @ [''.cache'']) = source_dir (init home) \<and>
             lookup ?t1 (home @ [''.cache'']) = Some Dir"
    and cache_empty: "children ?t1 (home @ [''.cache'']) = []"
    by code_simp+
  have keep: "home @ [''keep''] \<noteq> [] \<and> parent (home @ [''keep'']) = source_dir (init home) \<and>
             lookup ?t1 (home @ [''keep'']) = Some Dir"
    and keep_full: "children ?t1 (home @ [''keep'']) \<noteq> []"
    by code_simp+
  from rule [OF old] old_empty have "lookup restored_home (home @ [''old'']) = None"
    by simp
  moreover from rule [OF cache] cache_empty have "lookup restored_home (home @ [''.cache'']) = None"
    by simp
  moreover from rule [OF keep] keep_full have "lookup restored_home (home @ [''keep'']) = Some Dir"
    by simp
  ultimately show ?thesis using undo by simp
qed

section \<open>The destination of a move\<close>

lemma rfind_absent: "c \<notin> set s \<Longrightarrow> rfind s c = - 1"
  by (simp add: rfind_def)

lemma rfind_last: "c \<notin> set e \<Longrightarrow> rfind (s @ c # e) c = int (length s)"
proof -
  assume "c \<notin> set e"
  then have "takeWhile (\<lambda>x. x \<noteq> c) (rev e @ c # rev s) = rev e"
    by (subst takeWhile_append2) auto
  then show ?thesis by (simp add: rfind_def)
qed

lemma suffix_stem_no_dot:
  "CHR ''.'' \<notin> set n \<Longrightarrow> suffix_of n = [] \<and> stem_of n = n"
  by (simp add: suffix_of_def stem_of_def rfind_absent)

lemma suffix_stem_split:
  assumes "CHR ''.'' \<notin> set e"
  shows "suffix_of (s @ CHR ''.'' # e) = (if s \<noteq> [] \<and> e \<noteq> [] then CHR ''.'' # e else [])"
    and "stem_of (s @ CHR ''.'' # e) = (if s \<noteq> [] \<and> e \<noteq> [] then s else s @ CHR ''.'' # e)"
  using assms by (auto simp: suffix_of_def stem_of_def rfind_last)

lemma str_nat_no_dot: "CHR ''.'' \<notin> set (str_nat k)"
proof (induction k rule: str_nat.induct)
  case (1 n)
  have digit: "char_of (48 + d) \<noteq> CHR ''.''" if "d < 10" for d :: nat
  proof
    assume "char_of (48 + d) = CHR ''.''"
    then have "(of_char (char_of (48 + d) :: char) :: nat) = of_char CHR ''.''" by simp
    with that show False by simp
  qed
  show ?case
  proof (cases "n < 10")
    case True
    with digit [of n] show ?thesis by (auto simp: str_nat.simps [of n])
  next
    case False
    with "1.IH" digit [of "n mod 10"] show ?thesis by (auto simp: str_nat.simps [of n])
  qed
qed

lemma suffix_of_numbered:
  assumes "n = [] \<or> last n \<noteq> CHR ''.''"
  shows "suffix_of (stem_of n @ ''_'' @ str_nat k @ suffix_of n) = suffix_of n"
proof (cases "CHR ''.'' \<in> set n")
  case False
  then have "CHR ''.'' \<notin> set (n @ ''_'' @ str_nat k)"
    by (simp add: str_nat_no_dot)
  with False show ?thesis by (simp add: suffix_stem_no_dot)
next
  case True
  then obtain s e where n: "n = s @ CHR ''.'' # e" and e: "CHR ''.'' \<notin> set e"
    by (auto dest: split_list_last)
  with assms have e_ne: "e \<noteq> []" by auto
  show ?thesis
  proof (cases "s = []")
    case True
    have "CHR ''.'' \<notin> set (e @ ''_'' @ str_nat k)"
      using e by (simp add: str_nat_no_dot)
    from suffix_stem_split(1) [OF this, of "[]"] suffix_stem_split [OF e, of "[]"] True n
    show ?thesis by simp
  next
    case False
    from suffix_stem_split(1) [OF e, of "s @ ''_'' @ str_nat k"] suffix_stem_split [OF e, of s]
      False e_ne n
    show ?thesis by simp
  qed
qed

lemma path_exists_no_raise:
  "\<not> stat_raises t p \<Longrightarrow> \<exists>b. path_exists t p = Inr b"
  by (simp add: path_exists_def stat_test_value)

lemma resolve_loop_Inr:
  "resolve_loop t dir base ext dest c = Inr p \<Longrightarrow>
     path_exists t p = Inr False \<and> (p = dest \<or> (\<exists>k\<ge>c. p = numbered dir base ext k))"
proof (induction t dir base ext dest c rule: resolve_loop.induct)
  case (1 t dir base ext dest counter)
  show ?case
  proof (cases "path_exists t dest")
    case (Inl e)
    with "1.prems" show ?thesis by (simp add: resolve_loop.simps [of t dir base ext dest])
  next
    case (Inr b)
    show ?thesis
    proof (cases b)
      case True
      with Inr "1.prems"
      have "resolve_loop t dir base ext (numbered dir base ext counter) (counter + 1) = Inr p"
        by (simp add: resolve_loop.simps [of t dir base ext dest])
      from "1.IH" [OF Inr True this] show ?thesis
        by (auto intro: exI [of _ counter]) (metis Suc_leD)
    next
      case False
      with Inr "1.prems" show ?thesis
        by (simp add: resolve_loop.simps [of t dir base ext dest])
    qed
  qed
qed

lemma resolve_loop_returns:
  "\<forall>q. \<not> stat_raises t q \<Longrightarrow> \<exists>p. resolve_loop t dir base ext dest c = Inr p"
proof (induction t dir base ext dest c rule: resolve_loop.induct)
  case (1 t dir base ext dest counter)
  from "1.prems" obtain b where b: "path_exists t dest = Inr b"
    using path_exists_no_raise by blast
  show ?case
  proof (cases b)
    case True
    from "1.IH" [OF b True "1.prems"] b True show ?thesis
      by (simp add: resolve_loop.simps [of t dir base ext dest])
  next
    case False
    with b show ?thesis by (simp add: resolve_loop.simps [of t dir base ext dest])
  qed
qed

lemma resolve_loop_numbering:
  assumes "path_exists t dest = Inr True"
    and "\<forall>j. c \<le> j \<and> j < k \<longrightarrow> path_exists t (numbered dir base ext j) = Inr True"
    and "path_exists t (numbered dir base ext k) = Inr False" and "c \<le> k"
  shows "resolve_loop t dir base ext dest c = Inr (numbered dir base ext k)"
  using assms
proof (induction "k - c" arbitrary: c dest)
  case 0
  then have "c = k" by simp
  with "0.prems" show ?case
    by (simp add: resolve_loop.simps [of t dir base ext dest]
        resolve_loop.simps [of t dir base ext "numbered dir base ext k"])
next
  case (Suc d)
  then have "c < k" by simp
  with Suc.prems have next_taken: "path_exists t (numbered dir base ext c) = Inr True"
    by simp
  have "resolve_loop t dir base ext (numbered dir base ext c) (c + 1)
          = Inr (numbered dir base ext k)"
  proof (rule Suc.hyps(1))
    show "d = k - (c + 1)" using Suc.hyps(2) by simp
    show "path_exists t (numbered dir base ext c) = Inr True" by (rule next_taken)
    show "\<forall>j. c + 1 \<le> j \<and> j < k \<longrightarrow> path_exists t (numbered dir base ext j) = Inr True"
      using Suc.prems(2) by simp
    show "path_exists t (numbered dir base ext k) = Inr False" by (rule Suc.prems(3))
    show "c + 1 \<le> k" using \<open>c < k\<close> by simp
  qed
  with Suc.prems(1) show ?case
    by (simp add: resolve_loop.simps [of t dir base ext dest])
qed

text \<open>
  Claim C6 says, among other things, that the resolver never changes the extension of
  the desired name. For a name that ends in a dot, \<^verbatim>\<open>suffix\<close> is empty and \<^verbatim>\<open>stem\<close> is
  the whole name, so that the number is put after the dot: \<^verbatim>\<open>foo.\<close>, which has no
  extension, becomes \<^verbatim>\<open>foo._1\<close>, which has the extension \<^verbatim>\<open>._1\<close>.
\<close>

theorem resolver_changes_extension:
  "resolve_destination crowded_buckets (home @ [''Other'']) ''foo.''
     = Inr (home @ [''Other'', ''foo._1'']) \<and>
   suffix_of ''foo.'' = [] \<and> suffix_of ''foo._1'' = ''._1''"
  by code_simp

text \<open>
  Claim C6, amended. For every call, the path that the resolver returns does not exist
  at call time and lies in the target directory, and it has the extension of the desired
  name whenever that name does not end in a dot; the resolver returns a path unless
  \<^verbatim>\<open>exists()\<close> raises. If the desired name is free it is returned as it is; if it is
  taken together with its variants numbered \<^verbatim>\<open>_1\<close> to \<^verbatim>\<open>_(k-1)\<close>, and \<^verbatim>\<open>_k\<close> is free, the
  variant \<^verbatim>\<open>_k\<close> is returned: files of one name that arrive one after the other in a
  bucket get the name itself, then \<^verbatim>\<open>_1\<close>, \<^verbatim>\<open>_2\<close>, ... in call order, and variants of
  different numbers are different paths.
\<close>

theorem resolve_destination_properties:
  "(resolve_destination t dir n = Inr p \<longrightarrow>
      path_exists t p = Inr False \<and> p \<noteq> [] \<and> parent p = dir \<and>
      (n = [] \<or> last n \<noteq> CHR ''.'' \<longrightarrow> suffix_of (name p) = suffix_of n)) \<and>
   ((\<forall>q. \<not> stat_raises t q) \<longrightarrow> (\<exists>p'. resolve_destination t dir n = Inr p')) \<and>
   (path_exists t (dir @ [n]) = Inr False \<longrightarrow> resolve_destination t dir n = Inr (dir @ [n])) \<and>
   (path_exists t (dir @ [n]) = Inr True \<and> 1 \<le> k \<and>
    (\<forall>j. 1 \<le> j \<and> j < k \<longrightarrow>
         path_exists t (dir @ [stem_of n @ ''_'' @ str_nat j @ suffix_of n]) = Inr True) \<and>
    path_exists t (dir @ [stem_of n @ ''_'' @ str_nat k @ suffix_of n]) = Inr False \<longrightarrow>
      resolve_destination t dir n = Inr (dir @ [stem_of n @ ''_'' @ str_nat k @ suffix_of n])) \<and>
   (dir @ [stem_of n @ ''_'' @ str_nat i @ suffix_of n]
      = dir @ [stem_of n @ ''_'' @ str_nat k @ suffix_of n] \<longrightarrow> i = k)"
proof (intro conjI impI)
  assume res: "resolve_destination t dir n = Inr p"
  show "path_exists t p = Inr False"
    using res resolve_loop_Inr [of t dir "stem_of n" "suffix_of n" "dir @ [n]" 1 p]
    by (auto simp: resolve_destination_def Let_def name_def split: sum.splits if_splits)
  from res resolve_loop_Inr [of t dir "stem_of n" "suffix_of n" "dir @ [n]" 1 p]
  have shape: "p = dir @ [n] \<or> (\<exists>k. p = numbered dir (stem_of n) (suffix_of n) k)"
    by (auto simp: resolve_destination_def Let_def name_def split: sum.splits if_splits)
  then show "p \<noteq> []" and "parent p = dir"
    by (auto simp: numbered_def parent_def)
  assume "n = [] \<or> last n \<noteq> CHR ''.''"
  from suffix_of_numbered [OF this] shape show "suffix_of (name p) = suffix_of n"
    by (auto simp: numbered_def name_def)
next
  assume ok: "\<forall>q. \<not> stat_raises t q"
  then obtain b where "path_exists t (dir @ [n]) = Inr b"
    using path_exists_no_raise by blast
  with resolve_loop_returns [OF ok, of dir "stem_of n" "suffix_of n" "dir @ [n]" 1]
  show "\<exists>p'. resolve_destination t dir n = Inr p'"
    by (auto simp: resolve_destination_def Let_def name_def)
next
  assume "path_exists t (dir @ [n]) = Inr False"
  then show "resolve_destination t dir n = Inr (dir @ [n])"
    by (simp add: resolve_destination_def)
next
  assume a: "path_exists t (dir @ [n]) = Inr True \<and> 1 \<le> k \<and>
    (\<forall>j. 1 \<le> j \<and> j < k \<longrightarrow>
         path_exists t (dir @ [stem_of n @ ''_'' @ str_nat j @ suffix_of n]) = Inr True) \<and>
    path_exists t (dir @ [stem_of n @ ''_'' @ str_nat k @ suffix_of n]) = Inr False"
  then have "resolve_loop t dir (stem_of n) (suffix_of n) (dir @ [n]) 1
               = Inr (numbered dir (stem_of n) (suffix_of n) k)"
    by (intro resolve_loop_numbering) (simp_all add: numbered_def)
  with a show "resolve_destination t dir n
                 = Inr (dir @ [stem_of n @ ''_'' @ str_nat k @ suffix_of n])"
    by (simp add: resolve_destination_def name_def numbered_def)
next
  assume "dir @ [stem_of n @ ''_'' @ str_nat i @ suffix_of n]
            = dir @ [stem_of n @ ''_'' @ str_nat k @ suffix_of n]"
  then show "i = k" by (simp add: str_nat_inj)
qed


theorem resolve_destination_properties_witness:
  "resolve_destination crowded_buckets (home @ [''Documents'']) ''a.txt''
     = Inr (home @ [''Documents'', ''a_2.txt'']) \<and>
   path_exists crowded_buckets (home @ [''Documents'', ''a_2.txt'']) = Inr False \<and>
   parent (home @ [''Documents'', ''a_2.txt'']) = home @ [''Documents''] \<and>
   suffix_of (name (home @ [''Documents'', ''a_2.txt''])) = suffix_of ''a.txt''"
proof -
  have res: "resolve_destination crowded_buckets (home @ [''Documents'']) ''a.txt''
               = Inr (home @ [''Documents'', ''a_2.txt''])"
    by code_simp
  have no_dot: "''a.txt'' = [] \<or> last ''a.txt'' \<noteq> CHR ''.''"
    by simp
  from resolve_destination_properties
         [of crowded_buckets "home @ [''Documents'']" "''a.txt''"
             "home @ [''Documents'', ''a_2.txt'']", THEN conjunct1, THEN mp, OF res]
    no_dot res
  show ?thesis by simp
qed

section \<open>Duplicate detection\<close>

lemma hash_items_ok:
  "\<forall>p \<in> set items. \<not> stat_raises t p \<Longrightarrow>
     hash_items md5 t items g = Inr (grouped (digest_of md5 t) (filter (hashable t) items) g)"
proof (induction items arbitrary: g)
  case Nil
  then show ?case by simp
next
  case (Cons p items)
  then have p: "\<not> stat_raises t p" by simp
  show ?case
  proof (cases "hashable t p")
    case True
    then obtain c m v where "lookup t p = Some (File c m True v)"
      and "\<not> startswith (name p) ''.''"
      by (auto simp: hashable_def split: option.splits node.splits)
    with True Cons show ?thesis
      by (simp add: is_file_regular [OF p] regular_def read_file_def digest_of_def)
  next
    case False
    then have "\<not> (regular t p \<and> \<not> startswith (name p) ''.'')
               \<or> (\<exists>e. read_file t p = Inl e)"
      by (auto simp: hashable_def regular_def read_file_def split: option.splits node.splits)
    with False Cons show ?thesis
      by (auto simp: is_file_regular [OF p])
  qed
qed

lemma hash_items_raises:
  "\<exists>p \<in> set items. stat_raises t p \<Longrightarrow> \<exists>e. hash_items md5 t items g = Inl e"
proof (induction items arbitrary: g)
  case Nil
  then show ?case by simp
next
  case (Cons p items)
  show ?case
  proof (cases "stat_raises t p")
    case True
    from stat_test_raises [OF this, of "\<lambda>n. case n of File c m a v \<Rightarrow> True | _ \<Rightarrow> False"]
    show ?thesis by (auto simp: is_file_def)
  next
    case False
    with Cons.prems have "\<exists>q \<in> set items. stat_raises t q" by auto
    from Cons.IH [OF this] False show ?thesis
      by (auto simp: is_file_regular split: sum.splits)
  qed
qed

lemma find_duplicates_value:
  "find_duplicates md5 self t =
     (if \<forall>p \<in> set (rglob t (source_dir self)). \<not> stat_raises t p
      then Inr (filter (\<lambda>(h, files). length files > 1)
                  (grouped (digest_of md5 t) (filter (hashable t) (rglob t (source_dir self))) []))
      else Inl (case hash_items md5 t (rglob t (source_dir self)) [] of Inl e \<Rightarrow> e))"
proof (cases "\<forall>p \<in> set (rglob t (source_dir self)). \<not> stat_raises t p")
  case True
  then show ?thesis by (simp add: find_duplicates_def hash_items_ok)
next
  case False
  then have "\<exists>p \<in> set (rglob t (source_dir self)). stat_raises t p" by simp
  from hash_items_raises [OF this, of md5 "[]"] False show ?thesis
    by (auto simp: find_duplicates_def)
qed

lemma distinct_rglob: "distinct (rglob t d)"
  by (simp add: rglob_def)

lemma group_of:
  assumes "(h, ps) \<in> set (grouped key xs [])"
  shows "ps = filter (\<lambda>x. key x = h) xs \<and> ps \<noteq> []"
proof -
  have "distinct (map fst (grouped key xs []))" by (simp add: distinct_keys_grouped)
  with assms have "map_of (grouped key xs []) h = Some ps" by simp
  then show ?thesis by (auto simp: map_of_grouped split: if_splits)
qed

lemma distinct_small: "distinct xs \<Longrightarrow> set xs \<subseteq> {x} \<Longrightarrow> length xs \<le> 1"
proof -
  assume d: "distinct xs" and s: "set xs \<subseteq> {x}"
  from s have "card (set xs) \<le> card {x}" by (intro card_mono) simp_all
  moreover from d have "length xs = card (set xs)" by (simp add: distinct_card)
  ultimately show ?thesis by simp
qed

lemma distinct_two: "distinct xs \<Longrightarrow> a \<in> set xs \<Longrightarrow> b \<in> set xs \<Longrightarrow> a \<noteq> b \<Longrightarrow> 2 \<le> length xs"
proof -
  assume d: "distinct xs" and "a \<in> set xs" "b \<in> set xs" "a \<noteq> b"
  then have "card {a, b} \<le> card (set xs)" by (intro card_mono) auto
  with d \<open>a \<noteq> b\<close> show ?thesis by (simp add: distinct_card)
qed

lemma filter_single:
  "distinct xs \<Longrightarrow> x \<in> set xs \<Longrightarrow> P x \<Longrightarrow> \<forall>y \<in> set xs. y \<noteq> x \<longrightarrow> \<not> P y \<Longrightarrow> filter P xs = [x]"
proof (induction xs)
  case Nil
  then show ?case by simp
next
  case (Cons y ys)
  show ?case
  proof (cases "y = x")
    case True
    with Cons.prems have "\<forall>z \<in> set ys. \<not> P z" by auto
    then have "filter P ys = []" by (simp add: filter_empty_conv)
    with True Cons.prems show ?thesis by simp
  next
    case False
    with Cons show ?thesis by auto
  qed
qed

lemma distinct_grouped: "distinct (grouped key xs [])"
proof -
  have "distinct (map fst (grouped key xs []))" by (simp add: distinct_keys_grouped)
  then show ?thesis by (rule distinct_map [THEN iffD1, THEN conjunct1])
qed

lemma digest_collision:
  fixes md5 :: "content \<Rightarrow> digest"
  shows "\<exists>a c. a \<noteq> c \<and> md5 (Bytes a) = md5 (Bytes c)"
proof (rule ccontr)
  assume "\<not> (\<exists>a c. a \<noteq> c \<and> md5 (Bytes a) = md5 (Bytes c))"
  then have "inj (\<lambda>s. md5 (Bytes s))" by (auto intro: injI)
  moreover have "finite (range (\<lambda>s. md5 (Bytes s)))" by simp
  ultimately have "finite (UNIV :: string set)" by (rule finite_imageD [rotated])
  then show False by (simp add: infinite_UNIV_listI)
qed

text \<open>
  Claim C8 says that files with different bytes are never grouped, and that without
  repeated content the result is empty. The program compares digests only, and a digest
  has 128 bits: whatever function \<^verbatim>\<open>hashlib.md5\<close> is, two different contents have the same
  digest, and a directory that holds just these two files, where no content is repeated,
  is reported as one set of duplicates.
\<close>

theorem distinct_contents_reported_as_duplicates:
  "\<forall>md5. \<exists>a c. a \<noteq> c \<and>
     find_duplicates md5 (init home)
       [([], Dir), (home, Dir),
        (home @ [''A''], File (Bytes a) noon True True),
        (home @ [''C''], File (Bytes c) noon True True)]
     = Inr [(md5 (Bytes a), [home @ [''A''], home @ [''C'']])]"
proof
  fix md5 :: "content \<Rightarrow> digest"
  obtain a c where ac: "a \<noteq> c" "md5 (Bytes a) = md5 (Bytes c)"
    using digest_collision [of md5] by blast
  have "find_duplicates md5 (init home)
       [([], Dir), (home, Dir),
        (home @ [''A''], File (Bytes a) noon True True),
        (home @ [''C''], File (Bytes c) noon True True)]
     = Inr [(md5 (Bytes a), [home @ [''A''], home @ [''C'']])]"
    using ac(2)
    by (simp add: find_duplicates_def init_def rglob_def lookup_def home_def is_file_def
        stat_test_def stat_def read_file_def startswith_def name_def)
  with ac(1) show "\<exists>a c. a \<noteq> c \<and>
     find_duplicates md5 (init home)
       [([], Dir), (home, Dir),
        (home @ [''A''], File (Bytes a) noon True True),
        (home @ [''C''], File (Bytes c) noon True True)]
     = Inr [(md5 (Bytes a), [home @ [''A''], home @ [''C'']])]"
    by blast
qed


text \<open>
  Claim C8, amended. A file that cannot be read, like every entry that is not a regular
  file with a name not starting with a dot, is in no group of the result. For every tree
  in which the walk raises no error: if the files that can be hashed are \<open>A\<close>, \<open>B\<close> and
  \<open>C\<close>, with \<open>A\<close> and \<open>B\<close> of identical bytes and \<open>C\<close> of a different digest, the result is
  exactly one group, which consists of \<open>A\<close> and \<open>B\<close>; if no two files that can be hashed
  have the same digest, the result is the empty sequence.
\<close>

theorem find_duplicates_groups:
  "(find_duplicates md5 self t = Inr ds \<longrightarrow>
      (\<forall>(h, ps) \<in> set ds. \<forall>p \<in> set ps. hashable t p)) \<and>
   ((\<forall>p \<in> set (rglob t (source_dir self)). \<not> stat_raises t p) \<and>
    {p \<in> set (rglob t (source_dir self)). hashable t p} = {A, B, C} \<and> A \<noteq> B \<and>
    content (the (lookup t A)) = content (the (lookup t B)) \<and>
    digest_of md5 t C \<noteq> digest_of md5 t A \<longrightarrow>
      (\<exists>ps. find_duplicates md5 self t = Inr [(digest_of md5 t A, ps)] \<and> set ps = {A, B})) \<and>
   ((\<forall>p \<in> set (rglob t (source_dir self)). \<not> stat_raises t p) \<and>
    (\<forall>p \<in> set (rglob t (source_dir self)). \<forall>q \<in> set (rglob t (source_dir self)).
        hashable t p \<and> hashable t q \<and> digest_of md5 t p = digest_of md5 t q \<longrightarrow> p = q) \<longrightarrow>
      find_duplicates md5 self t = Inr [])"
proof -
  define W where "W = filter (hashable t) (rglob t (source_dir self))"
  define G where "G = grouped (digest_of md5 t) W []"
  have dW: "distinct W" by (simp add: W_def distinct_rglob)
  have setW: "set W = {p \<in> set (rglob t (source_dir self)). hashable t p}"
    by (simp add: W_def)
  have result: "find_duplicates md5 self t = Inr (filter (\<lambda>(h, files). length files > 1) G)"
    if "\<forall>p \<in> set (rglob t (source_dir self)). \<not> stat_raises t p"
    using that by (simp add: find_duplicates_value G_def W_def)
  have group: "qs = filter (\<lambda>x. digest_of md5 t x = h) W \<and> qs \<noteq> [] \<and> distinct qs"
    if "(h, qs) \<in> set G" for h qs
  proof -
    from group_of [OF that [unfolded G_def]]
    have "qs = filter (\<lambda>x. digest_of md5 t x = h) W" "qs \<noteq> []" by blast+
    moreover from dW have "distinct (filter (\<lambda>x. digest_of md5 t x = h) W)"
      by (rule distinct_filter)
    ultimately show ?thesis by simp
  qed
  have part1: "\<forall>(h, ps) \<in> set ds. \<forall>p \<in> set ps. hashable t p"
    if "find_duplicates md5 self t = Inr ds"
  proof -
    from that have ds: "ds = filter (\<lambda>(h, files). length files > 1) G"
      by (simp add: find_duplicates_value G_def W_def split: if_splits)
    show ?thesis
    proof (intro ballI, clarify)
      fix h ps p
      assume "(h, ps) \<in> set ds" and p: "p \<in> set ps"
      with ds have "(h, ps) \<in> set G" by simp
      from group [OF this] p have "p \<in> set W" by auto
      then show "hashable t p" by (simp add: setW)
    qed
  qed
  have part2: "\<exists>ps. find_duplicates md5 self t = Inr [(digest_of md5 t A, ps)] \<and> set ps = {A, B}"
    if a: "(\<forall>p \<in> set (rglob t (source_dir self)). \<not> stat_raises t p) \<and>
      {p \<in> set (rglob t (source_dir self)). hashable t p} = {A, B, C} \<and> A \<noteq> B \<and>
      content (the (lookup t A)) = content (the (lookup t B)) \<and>
      digest_of md5 t C \<noteq> digest_of md5 t A"
  proof -
    from a have W: "set W = {A, B, C}" and AB: "A \<noteq> B"
      and hC: "digest_of md5 t C \<noteq> digest_of md5 t A"
      by (simp_all add: setW)
    from a have hB: "digest_of md5 t B = digest_of md5 t A" by (simp add: digest_of_def)
    define ps where "ps = filter (\<lambda>x. digest_of md5 t x = digest_of md5 t A) W"
    from W have "A \<in> set W" by simp
    from map_of_grouped_member [OF this, of "digest_of md5 t"]
    have inG: "(digest_of md5 t A, ps) \<in> set G"
      unfolding G_def ps_def by (rule map_of_SomeD)
    from W hB hC have set_ps: "set ps = {A, B}" by (auto simp: ps_def)
    from group [OF inG] have "distinct ps" by blast
    from distinct_two [OF this, of A B] set_ps AB have long: "2 \<le> length ps" by simp
    have "filter (\<lambda>(h, files). length files > 1) G = [(digest_of md5 t A, ps)]"
    proof (rule filter_single [OF _ inG])
      show "distinct G" unfolding G_def by (rule distinct_grouped)
      from long show "case (digest_of md5 t A, ps) of (h, files) \<Rightarrow> length files > 1" by simp
      show "\<forall>y \<in> set G. y \<noteq> (digest_of md5 t A, ps) \<longrightarrow> \<not> (case y of (h, files) \<Rightarrow> 1 < length files)"
      proof (intro ballI impI)
        fix y assume y: "y \<in> set G" and ne: "y \<noteq> (digest_of md5 t A, ps)"
        obtain h qs where yq: "y = (h, qs)" by (cases y)
        note g = group [OF y [unfolded yq]]
        with ne yq have "h \<noteq> digest_of md5 t A" by (auto simp: ps_def)
        with g W hB have "set qs \<subseteq> {C}" by auto
        
        moreover from g have "distinct qs" by blast
        ultimately have "length qs \<le> 1" by (rule distinct_small [rotated])
        with yq show "\<not> (case y of (h, files) \<Rightarrow> 1 < length files)" by simp
      qed
    qed
    with result a set_ps show ?thesis by simp
  qed
  have part3: "find_duplicates md5 self t = Inr []"
    if a: "(\<forall>p \<in> set (rglob t (source_dir self)). \<not> stat_raises t p) \<and>
      (\<forall>p \<in> set (rglob t (source_dir self)). \<forall>q \<in> set (rglob t (source_dir self)).
          hashable t p \<and> hashable t q \<and> digest_of md5 t p = digest_of md5 t q \<longrightarrow> p = q)"
  proof -
    from a have inj: "p = q"
      if "p \<in> set W" "q \<in> set W" "digest_of md5 t p = digest_of md5 t q" for p q
      using that by (simp add: setW)
    have "\<not> (case y of (h, files) \<Rightarrow> 1 < length files)" if y: "y \<in> set G" for y
    proof -
      obtain h qs where yq: "y = (h, qs)" by (cases y)
      from group [OF y [unfolded yq]]
      have g1: "qs = filter (\<lambda>x. digest_of md5 t x = h) W" and g2: "qs \<noteq> []"
        and g3: "distinct qs"
        by blast+
      from g2 obtain x where x: "x \<in> set qs" by (cases qs) auto
      have "set qs \<subseteq> {x}"
      proof
        fix z assume "z \<in> set qs"
        with x have "z \<in> set W" "x \<in> set W" "digest_of md5 t z = digest_of md5 t x"
          by (simp_all add: g1)
        then have "z = x" by (rule inj)
        then show "z \<in> {x}" by simp
      qed
      with g3 have "length qs \<le> 1" by (rule distinct_small)
      with yq show ?thesis by simp
    qed
    then have "filter (\<lambda>(h, files). length files > 1) G = []"
      by (simp add: filter_empty_conv)
    with result a show ?thesis by simp
  qed
  from part1 part2 part3 show ?thesis by (intro conjI impI)
qed

theorem find_duplicates_groups_witness:
  "(\<exists>ps. find_duplicates toy_digest (init home) library
            = Inr [(digest_of toy_digest library (home @ [''A.txt'']), ps)] \<and>
          set ps = {home @ [''A.txt''], home @ [''sub'', ''B.txt'']}) \<and>
   lookup library (home @ [''D.txt'']) = Some (File (Bytes ''same'') noon False True) \<and>
   \<not> hashable library (home @ [''D.txt''])"
proof -
  let ?A = "home @ [''A.txt'']" and ?B = "home @ [''sub'', ''B.txt'']"
  let ?C = "home @ [''C.txt'']"
  have walk: "rglob library (source_dir (init home))
                = [?A, home @ [''sub''], ?B, ?C, home @ [''D.txt'']]"
    by code_simp
  have ok: "\<forall>p \<in> set (rglob library (source_dir (init home))). \<not> stat_raises library p"
    unfolding walk by code_simp
  have "filter (hashable library) (rglob library (source_dir (init home))) = [?A, ?B, ?C]"
    unfolding walk by code_simp
  then have "set (filter (hashable library) (rglob library (source_dir (init home))))
               = set [?A, ?B, ?C]"
    by (rule arg_cong)
  then have files: "{p \<in> set (rglob library (source_dir (init home))). hashable library p}
                      = {?A, ?B, ?C}"
    by simp
  have ne: "?A \<noteq> ?B" by simp
  have same: "content (the (lookup library ?A)) = content (the (lookup library ?B))"
    by code_simp
  have other: "digest_of toy_digest library ?C \<noteq> digest_of toy_digest library ?A"
    by code_simp
  from ok files ne same other
  have "\<exists>ps. find_duplicates toy_digest (init home) library
               = Inr [(digest_of toy_digest library ?A, ps)] \<and> set ps = {?A, ?B}"
    by (intro find_duplicates_groups [THEN conjunct2, THEN conjunct1, THEN mp] conjI)
  moreover have "lookup library (home @ [''D.txt'']) = Some (File (Bytes ''same'') noon False True)"
    and "\<not> hashable library (home @ [''D.txt''])"
    by code_simp+
  ultimately show ?thesis by (intro conjI)
qed

section \<open>What a run does to the tree\<close>

lemma grows_refl: "grows t t"
  by (simp add: grows_def)

lemma grows_trans: "grows t t1 \<Longrightarrow> grows t1 t2 \<Longrightarrow> grows t t2"
  unfolding grows_def by (metis option.distinct(1))

lemma grows_put: "lookup t d = None \<Longrightarrow> grows t (fs_put d Dir t)"
  by (simp add: grows_def)

lemma grows_kept: "grows t t1 \<Longrightarrow> lookup t q = Some n \<Longrightarrow> lookup t1 q = Some n"
  unfolding grows_def by (metis option.distinct(1))

lemma os_mkdir_grows: "os_mkdir t d = Inr t1 \<Longrightarrow> grows t t1"
  by (auto simp: os_mkdir_def grows_put split: if_splits option.splits node.splits)

lemma mkdir_exist_ok_grows: "mkdir_exist_ok t d = Inr t1 \<Longrightarrow> grows t t1"
  by (auto simp: mkdir_exist_ok_def grows_refl os_mkdir_grows
      split: sum.splits error.splits errno.splits if_splits)

lemma mkdir_parents_grows: "mkdir_parents t d = (r, t1) \<Longrightarrow> grows t t1"
proof (induction t d arbitrary: r t1 rule: mkdir_parents.induct)
  case (1 t p)
  show ?case
  proof (cases "os_mkdir t p")
    case (Inr t')
    with "1.prems" show ?thesis
      by (simp add: mkdir_parents.simps [of t p] os_mkdir_grows)
  next
    case (Inl e)
    show ?thesis
    proof (cases "e = OSError ENOENT \<and> p \<noteq> []")
      case False
      with Inl "1.prems" show ?thesis
        by (auto simp: mkdir_parents.simps [of t p] grows_refl
            split: error.splits errno.splits sum.splits if_splits)
    next
      case True
      obtain r' t' where rec: "mkdir_parents t (parent p) = (r', t')"
        by (cases "mkdir_parents t (parent p)")
      from True Inl have "grows t t'"
        by (intro "1.IH" [OF _ _ _ _ rec]) auto
      moreover from True Inl rec "1.prems" have "t1 = t' \<or> mkdir_exist_ok t' p = Inr t1"
        by (auto simp: mkdir_parents.simps [of t p] split: sum.splits)
      ultimately show ?thesis
        by (auto intro: grows_trans mkdir_exist_ok_grows)
    qed
  qed
qed


lemma parent_length: "p \<noteq> [] \<Longrightarrow> length p = length (parent p) + 1"
  by (simp add: parent_def)

lemma parent_not_root: "p \<noteq> [] \<Longrightarrow> parent p = root \<Longrightarrow> p \<noteq> root"
  using parent_length [of p] by auto

lemma run_inv_root: "run_inv t0 root log U t \<Longrightarrow> lookup t root = Some Dir"
  by (simp add: run_inv_def)

lemma run_inv_logged:
  "run_inv t0 root log U t \<Longrightarrow> (a, b) \<in> set log \<Longrightarrow>
     a \<noteq> [] \<and> parent a = root \<and> length root + 1 < length b \<and>
     (\<exists>c m x. lookup t0 a = Some (File c m x True)) \<and> lookup t b = lookup t0 a"
  unfolding run_inv_def by fast

lemma run_inv_distinct:
  "run_inv t0 root log U t \<Longrightarrow>
     distinct (map fst log) \<and> distinct (map snd log) \<and> fst ` set log \<inter> U = {}"
  by (simp add: run_inv_def)

lemma run_inv_pending:
  "run_inv t0 root log U t \<Longrightarrow> p \<in> U \<Longrightarrow>
     p \<noteq> [] \<and> parent p = root \<and> regular t0 p \<and> lookup t p = lookup t0 p"
  unfolding run_inv_def by fast

lemma run_inv_unstatable:
  "run_inv t0 root log U t \<Longrightarrow> lookup t p = Some (Unstatable e) \<Longrightarrow>
     lookup t0 p = Some (Unstatable e)"
  unfolding run_inv_def by fast

lemma run_invI:
  assumes "lookup t root = Some Dir"
    and "\<And>a b. (a, b) \<in> set log \<Longrightarrow>
           a \<noteq> [] \<and> parent a = root \<and> length root + 1 < length b \<and>
           (\<exists>c m x. lookup t0 a = Some (File c m x True)) \<and> lookup t b = lookup t0 a"
    and "distinct (map fst log)" and "distinct (map snd log)" and "fst ` set log \<inter> U = {}"
    and "\<And>p. p \<in> U \<Longrightarrow>
           p \<noteq> [] \<and> parent p = root \<and> regular t0 p \<and> lookup t p = lookup t0 p"
    and "\<And>p e. lookup t p = Some (Unstatable e) \<Longrightarrow> lookup t0 p = Some (Unstatable e)"
  shows "run_inv t0 root log U t"
  unfolding run_inv_def using assms by (intro conjI ballI allI impI) (blast+)

lemma run_inv_grows:
  assumes inv: "run_inv t0 root log U t" and "grows t t1"
  shows "run_inv t0 root log U t1"
proof (rule run_invI)
  note k = grows_kept [OF assms(2)]
  from run_inv_root [OF inv] show "lookup t1 root = Some Dir" by (rule k)
  show "a \<noteq> [] \<and> parent a = root \<and> length root + 1 < length b \<and>
        (\<exists>c m x. lookup t0 a = Some (File c m x True)) \<and> lookup t1 b = lookup t0 a"
    if "(a, b) \<in> set log" for a b
  proof -
    note l = run_inv_logged [OF inv that]
    then obtain n where n: "lookup t b = Some n" by auto
    from k [OF n] n have "lookup t1 b = lookup t b" by simp
    with l show ?thesis by simp
  qed
  from run_inv_distinct [OF inv]
  show "distinct (map fst log)" "distinct (map snd log)" "fst ` set log \<inter> U = {}"
    by simp_all
  show "p \<noteq> [] \<and> parent p = root \<and> regular t0 p \<and> lookup t1 p = lookup t0 p"
    if "p \<in> U" for p
  proof -
    note l = run_inv_pending [OF inv that]
    then obtain n where n: "lookup t p = Some n"
      by (auto simp: regular_def split: option.splits)
    from k [OF n] n have "lookup t1 p = lookup t p" by simp
    with l show ?thesis by simp
  qed
  show "lookup t0 p = Some (Unstatable e)" if "lookup t1 p = Some (Unstatable e)" for p e
  proof -
    from assms(2) that have "lookup t p = Some (Unstatable e)"
      unfolding grows_def by (metis node.distinct(5) option.inject)
    then show ?thesis by (rule run_inv_unstatable [OF inv])
  qed
qed

lemma run_inv_skip:
  assumes inv: "run_inv t0 root log U t"
  shows "run_inv t0 root log (U - V) t"
proof (rule run_invI)
  from run_inv_root [OF inv] show "lookup t root = Some Dir" .
  show "a \<noteq> [] \<and> parent a = root \<and> length root + 1 < length b \<and>
        (\<exists>c m x. lookup t0 a = Some (File c m x True)) \<and> lookup t b = lookup t0 a"
    if "(a, b) \<in> set log" for a b
    using run_inv_logged [OF inv that] .
  from run_inv_distinct [OF inv]
  show "distinct (map fst log)" "distinct (map snd log)" "fst ` set log \<inter> (U - V) = {}"
    by auto
  show "p \<noteq> [] \<and> parent p = root \<and> regular t0 p \<and> lookup t p = lookup t0 p"
    if "p \<in> U - V" for p
    using run_inv_pending [OF inv, of p] that by simp
  show "lookup t0 p = Some (Unstatable e)" if "lookup t p = Some (Unstatable e)" for p e
    using run_inv_unstatable [OF inv that] .
qed

lemma path_exists_False:
  "path_exists t p = Inr False \<Longrightarrow>
     lookup t p = None \<or> (\<exists>e. lookup t p = Some (Unstatable e))"
  by (auto simp: path_exists_def stat_test_def stat_def
      split: option.splits node.splits sum.splits error.splits if_splits)

lemma shutil_move_file:
  assumes "shutil_move t a b = Inr t1" and "lookup t a = Some (File c m x v)"
    and "path_exists t b = Inr False"
  shows "v \<and> lookup t (parent b) = Some Dir \<and> t1 = fs_put b (File c m x v) (fs_del a t)"
proof -
  from path_exists_False [OF assms(3)] have nd: "\<not> os_path_isdir t b" "lookup t b \<noteq> Some Dir"
    by (auto simp: os_path_isdir_def stat_def)
  with assms(1) have "os_rename t a b = Inr t1" by (simp add: shutil_move_def)
  with assms(2) nd show ?thesis
    by (auto simp: os_rename_def split: if_splits option.splits node.splits)
qed

lemma run_inv_move:
  assumes inv: "run_inv t0 root log U t" and a: "a \<in> U"
    and res: "path_exists t b = Inr False" "b \<noteq> []" "parent b = d" "length root < length d"
    and mv: "shutil_move t a b = Inr t1"
  shows "run_inv t0 root (log @ [(a, b)]) (U - {a}) t1"
proof -
  from run_inv_pending [OF inv a]
  have a_facts: "a \<noteq> []" "parent a = root" "regular t0 a" "lookup t a = lookup t0 a"
    by simp_all
  then obtain c m x v where is_file: "lookup t a = Some (File c m x v)"
    by (auto simp: regular_def split: option.splits node.splits)
  from shutil_move_file [OF mv is_file res(1)]
  have v: v and t1: "t1 = fs_put b (File c m x v) (fs_del a t)" by simp_all
  have look: "lookup t1 q = (if q = b then Some (File c m x v) else if q = a then None else lookup t q)"
    for q by (simp add: t1)
  from res have len_b: "length root + 1 < length b" using parent_length [of b] by simp
  from a_facts have len_a: "length a = length root + 1" using parent_length [of a] by simp
  from len_a len_b have ab: "a \<noteq> b" by auto
  from a_facts have a_root: "a \<noteq> root" by (simp add: parent_not_root)
  from len_b have b_root: "b \<noteq> root" by auto
  note d = run_inv_distinct [OF inv]
  have old: "a' \<noteq> [] \<and> parent a' = root \<and> length root + 1 < length b' \<and>
          (\<exists>c m x. lookup t0 a' = Some (File c m x True)) \<and> lookup t1 b' = lookup t0 a' \<and>
          a' \<noteq> a \<and> b' \<noteq> b"
    if "(a', b') \<in> set log" for a' b'
  proof -
    note o = run_inv_logged [OF inv that]
    from that have "a' \<in> fst ` set log" by (rule image_eqI [rotated]) simp
    with d a have "a' \<noteq> a" by blast
    moreover from o path_exists_False [OF res(1)] have "b' \<noteq> b" by auto
    moreover from o len_a have "b' \<noteq> a" by auto
    ultimately show ?thesis using o by (simp add: look)
  qed
  show ?thesis
  proof (rule run_invI)
    from run_inv_root [OF inv] a_root b_root show "lookup t1 root = Some Dir"
      by (simp add: look)
    show "a' \<noteq> [] \<and> parent a' = root \<and> length root + 1 < length b' \<and>
          (\<exists>c m x. lookup t0 a' = Some (File c m x True)) \<and> lookup t1 b' = lookup t0 a'"
      if "(a', b') \<in> set (log @ [(a, b)])" for a' b'
    proof (cases "(a', b') = (a, b)")
      case True
      with is_file v a_facts len_b show ?thesis by (simp add: look)
    next
      case False
      with that have "(a', b') \<in> set log" by auto
      from old [OF this] show ?thesis by simp
    qed
    from d a have "a \<notin> fst ` set log" by blast
    with d show "distinct (map fst (log @ [(a, b)]))" by simp
    have "b \<notin> snd ` set log"
    proof
      assume "b \<in> snd ` set log"
      then obtain a' where "(a', b) \<in> set log" by auto
      from old [OF this] show False by simp
    qed
    with d show "distinct (map snd (log @ [(a, b)]))" by simp
    from d show "fst ` set (log @ [(a, b)]) \<inter> (U - {a}) = {}" by auto
    show "p \<noteq> [] \<and> parent p = root \<and> regular t0 p \<and> lookup t1 p = lookup t0 p"
      if "p \<in> U - {a}" for p
    proof -
      from that have "p \<in> U" "p \<noteq> a" by simp_all
      note o = run_inv_pending [OF inv this(1)]
      with len_b have "p \<noteq> b" using parent_length [of p] by auto
      with o \<open>p \<noteq> a\<close> show ?thesis by (simp add: look)
    qed
    show "lookup t0 p = Some (Unstatable e)" if "lookup t1 p = Some (Unstatable e)" for p e
    proof -
      from that have "lookup t p = Some (Unstatable e)" by (auto simp: look split: if_splits)
      then show ?thesis by (rule run_inv_unstatable [OF inv])
    qed
  qed
qed


lemma resolve_destination_Inr:
  assumes "resolve_destination t dir n = Inr p"
  shows "path_exists t p = Inr False \<and> p \<noteq> [] \<and> parent p = dir"
proof -
  from assms resolve_loop_Inr [of t dir "stem_of n" "suffix_of n" "dir @ [n]" 1 p]
  have "path_exists t p = Inr False"
    and "p = dir @ [n] \<or> (\<exists>k. p = numbered dir (stem_of n) (suffix_of n) k)"
    by (auto simp: resolve_destination_def Let_def name_def split: sum.splits if_splits)
  then show ?thesis by (auto simp: numbered_def parent_def)
qed

lemma subseq_member: "subseq xs ys \<Longrightarrow> x \<in> set xs \<Longrightarrow> x \<in> set ys"
  by (auto elim: list_emb_set)

lemma move_files_inv:
  assumes "move_files d files self t n = (Inr n', self', t')"
    and "run_inv t0 root log U t" and "set (map path files) \<subseteq> U"
    and "distinct (map path files)" and "length root < length d"
  shows "\<exists>new. moves self' = moves self @ new \<and> n' = n + length new \<and>
           subseq (map fst new) (map path files) \<and>
           (\<forall>(a, b) \<in> set new. parent b = d) \<and>
           run_inv t0 root (log @ new) (U - set (map path files)) t'"
  using assms
proof (induction files arbitrary: self t n log U)
  case Nil
  then show ?case by (intro exI [of _ "[]"]) simp
next
  case (Cons f files)
  let ?a = "path f"
  from Cons.prems(3) have a: "?a \<in> U" and sub0: "set (map path files) \<subseteq> U"
    by simp_all
  from Cons.prems(4) have fresh: "?a \<notin> set (map path files)"
    and dist: "distinct (map path files)"
    by simp_all
  from sub0 fresh have sub: "set (map path files) \<subseteq> U - {?a}"
    by blast
  have U': "U - {?a} - set (map path files) = U - set (map path (f # files))"
    by auto
  from Cons.prems(1) show ?case
  proof (cases rule: move_files_step)
    case (skipped dest e)
    from Cons.IH [OF skipped(3) run_inv_skip [OF Cons.prems(2)] sub dist Cons.prems(5)]
    obtain new where new: "moves self' = moves self @ new" "n' = n + length new"
      "subseq (map fst new) (map path files)" "\<forall>(a, b) \<in> set new. parent b = d"
      "run_inv t0 root (log @ new) (U - {?a} - set (map path files)) t'"
      by blast
    from new(3) have "subseq (map fst new) (map path (f # files))" by auto
    with new U' show ?thesis by (intro exI [of _ new]) simp
  next
    case (moved dest t1)
    note r = resolve_destination_Inr [OF moved(1)]
    from r have inv1: "run_inv t0 root (log @ [(?a, dest)]) (U - {?a}) t1"
      by (intro run_inv_move [OF Cons.prems(2) a _ _ _ Cons.prems(5) moved(2)]) simp_all
    from Cons.IH [OF moved(3) inv1 sub dist Cons.prems(5)]
    obtain new where new: "moves self' = moves self @ [(?a, dest)] @ new"
      "n' = Suc n + length new"
      "subseq (map fst new) (map path files)" "\<forall>(a, b) \<in> set new. parent b = d"
      "run_inv t0 root ((log @ [(?a, dest)]) @ new) (U - {?a} - set (map path files)) t'"
      by auto
    from new(3) have "subseq (map fst ((?a, dest) # new)) (map path (f # files))" by simp
    moreover from new(4) r have "\<forall>(a, b) \<in> set ((?a, dest) # new). parent b = d" by simp
    ultimately show ?thesis using new U' by (intro exI [of _ "(?a, dest) # new"]) simp
  qed
qed

lemma members_append_paths:
  "map path (members ((c, files) # groups)) = map path files @ map path (members groups)"
  by simp

lemma move_categories_inv:
  assumes "move_categories root groups self t n = (Inr n', self', t')"
    and "run_inv t0 root log U t" and "set (map path (members groups)) \<subseteq> U"
    and "distinct (map path (members groups))"
    and "\<forall>(c, files) \<in> set groups. \<forall>f \<in> set files. get_file_category (path f) = c"
  shows "\<exists>new. moves self' = moves self @ new \<and> n' = n + length new \<and>
           subseq (map fst new) (map path (members groups)) \<and>
           (\<forall>(a, b) \<in> set new. parent b = root @ [get_file_category a]) \<and>
           run_inv t0 root (log @ new) (U - set (map path (members groups))) t'"
  using assms
proof (induction groups arbitrary: self t n log U)
  case Nil
  then show ?case by (intro exI [of _ "[]"]) simp
next
  case (Cons g groups)
  obtain c files where g: "g = (c, files)" by (cases g)
  from Cons.prems(3,4) have sub1: "set (map path files) \<subseteq> U"
    and dist1: "distinct (map path files)"
    and sub2: "set (map path (members groups)) \<subseteq> U - set (map path files)"
    and dist2: "distinct (map path (members groups))"
    by (auto simp: g)
  from Cons.prems(5) have key1: "\<forall>f \<in> set files. get_file_category (path f) = c"
    and key2: "\<forall>(c, files) \<in> set groups. \<forall>f \<in> set files. get_file_category (path f) = c"
    by (auto simp: g)
  have U': "U - set (map path files) - set (map path (members groups))
              = U - set (map path (members (g # groups)))"
    by (auto simp: g)
  from Cons.prems(1) [unfolded g] show ?case
  proof (cases rule: move_categories_step)
    case (1 t1 n1 self1 t2)
    from run_inv_grows [OF Cons.prems(2) mkdir_exist_ok_grows [OF 1(1)]]
    have inv1: "run_inv t0 root log U t1" .
    from move_files_inv [OF 1(2) inv1 sub1 dist1]
    obtain new1 where new1: "moves self1 = moves self @ new1" "n1 = n + length new1"
      "subseq (map fst new1) (map path files)" "\<forall>(a, b) \<in> set new1. parent b = root @ [c]"
      "run_inv t0 root (log @ new1) (U - set (map path files)) t2"
      by auto
    from Cons.IH [OF 1(3) new1(5) sub2 dist2 key2]
    obtain new2 where new2: "moves self' = moves self1 @ new2" "n' = n1 + length new2"
      "subseq (map fst new2) (map path (members groups))"
      "\<forall>(a, b) \<in> set new2. parent b = root @ [get_file_category a]"
      "run_inv t0 root ((log @ new1) @ new2)
         (U - set (map path files) - set (map path (members groups))) t'"
      by auto
    have cat1: "\<forall>(a, b) \<in> set new1. parent b = root @ [get_file_category a]"
    proof (intro ballI, clarify)
      fix a b assume ab: "(a, b) \<in> set new1"
      then have "a \<in> set (map fst new1)" by force
      with new1(3) have "a \<in> set (map path files)" by (rule subseq_member)
      with key1 have "get_file_category a = c" by auto
      with new1(4) ab show "parent b = root @ [get_file_category a]" by auto
    qed
    from new1(3) new2(3)
    have "subseq (map fst (new1 @ new2)) (map path (members (g # groups)))"
      by (simp add: g list_emb_append_mono)
    moreover from cat1 new2(4)
    have "\<forall>(a, b) \<in> set (new1 @ new2). parent b = root @ [get_file_category a]"
      by auto
    ultimately show ?thesis using new1 new2 U'
      by (intro exI [of _ "new1 @ new2"]) simp
  qed
qed


lemma scan_directory_Inr:
  assumes "scan_directory self t = Inr groups"
  shows "lookup t (source_dir self) = Some Dir"
    and "\<forall>p \<in> set (children t (source_dir self)). \<not> stat_raises t p"
    and "groups = grouped (\<lambda>f. get_file_category (path f))
                    (scanned t (children t (source_dir self))) []"
proof -
  from assms show dir: "lookup t (source_dir self) = Some Dir"
    by (auto simp: scan_directory_def iterdir_def split: option.splits node.splits)
  with assms have items: "scan_items t (children t (source_dir self)) [] = Inr groups"
    by (simp add: scan_directory_def iterdir_def)
  show ok: "\<forall>p \<in> set (children t (source_dir self)). \<not> stat_raises t p"
  proof (rule ccontr)
    assume "\<not> (\<forall>p \<in> set (children t (source_dir self)). \<not> stat_raises t p)"
    then have "\<exists>p \<in> set (children t (source_dir self)). stat_raises t p" by simp
    from scan_items_raises [OF this, of "[]"] items show False by auto
  qed
  from scan_items_ok [OF ok, of "[]"] items
  show "groups = grouped (\<lambda>f. get_file_category (path f))
                   (scanned t (children t (source_dir self))) []"
    by simp
qed

lemma distinct_children: "distinct (children t d)"
  by (simp add: children_def)

lemma path_scanned:
  "map path (scanned t items) = filter (\<lambda>p. regular t p \<and> \<not> startswith (name p) ''.'') items"
  by (simp add: scanned_def record_of_def comp_def)

lemma scanned_paths:
  assumes "groups = grouped key (scanned t (children t root)) []"
  shows "distinct (map path (members groups))"
    and "set (map path (members groups))
           = {p \<in> set (children t root). regular t p \<and> \<not> startswith (name p) ''.''}"
proof -
  let ?xs = "scanned t (children t root)"
  have dp: "distinct (map path ?xs)"
    unfolding path_scanned using distinct_children by (rule distinct_filter)
  then have dx: "distinct ?xs" and inj: "inj_on path (set ?xs)"
    by (simp_all add: distinct_map)
  from dx have "distinct (members groups)"
    by (simp add: assms distinct_members_grouped)
  moreover have set_eq: "set (members groups) = set ?xs"
    by (simp add: assms set_members_grouped)
  ultimately show "distinct (map path (members groups))"
    using inj by (simp add: distinct_map)
  have "set (map path (members groups)) = set (map path ?xs)"
    using set_eq by simp
  then show "set (map path (members groups))
           = {p \<in> set (children t root). regular t p \<and> \<not> startswith (name p) ''.''}"
    unfolding path_scanned by simp
qed

lemma run_inv_start:
  assumes "lookup t root = Some Dir"
  shows "run_inv t root [] {p \<in> set (children t root). regular t p \<and> P p} t"
  using assms by (intro run_invI) (simp_all add: set_children)

lemma write_file_accessible:
  "write_file t p c now = Inr t' \<Longrightarrow> \<exists>v. lookup t' p = Some (File c now True v)"
  by (auto simp: write_file_def split: option.splits node.splits if_splits)

lemma category_run:
  assumes run: "organize_by_category False now self t = (Inr r, self', t')"
  obtains groups new t1 where "scan_directory self t = Inr groups"
    and "moves self' = moves self @ new" and "r = Some (length new)"
    and "subseq (map fst new) (map path (members groups))"
    and "\<forall>(a, b) \<in> set new. parent b = source_dir self @ [get_file_category a]"
    and "run_inv t (source_dir self) new {} t1"
    and "write_file t1 (history_file self) (History now (moves self')) now = Inr t'"
proof -
  from run obtain groups n t1 where scan: "scan_directory self t = Inr groups"
    and mc: "move_categories (source_dir self) groups self t 0 = (Inr n, self', t1)"
    and sh: "save_history now self' t1 = Inr t'" and r: "r = Some n"
    by (rule organize_by_category_run)
  let ?root = "source_dir self"
  let ?U = "{p \<in> set (children t ?root). regular t p \<and> \<not> startswith (name p) ''.''}"
  note s = scan_directory_Inr [OF scan]
  note p = scanned_paths [OF s(3)]
  have keyed: "\<forall>(c, files) \<in> set groups. \<forall>f \<in> set files. get_file_category (path f) = c"
  proof -
    have "keyed (\<lambda>f. get_file_category (path f)) groups"
      unfolding s(3) by (rule keyed_grouped) simp
    then show ?thesis by (auto simp: keyed_def)
  qed
  from p(2) have sub: "set (map path (members groups)) \<subseteq> ?U" by simp
  from move_categories_inv [OF mc run_inv_start [OF s(1)] sub p(1) keyed]
  obtain new where new: "moves self' = moves self @ new" "n = 0 + length new"
    "subseq (map fst new) (map path (members groups))"
    "\<forall>(a, b) \<in> set new. parent b = ?root @ [get_file_category a]"
    "run_inv t ?root ([] @ new) (?U - set (map path (members groups))) t1"
    by blast
  from new(5) p(2) have inv: "run_inv t ?root new {} t1" by simp
  from move_categories_fields [OF mc] sh
  have w: "write_file t1 (history_file self) (History now (moves self')) now = Inr t'"
    by (simp add: save_history_def)
  from scan new(1) r new(2) new(3) new(4) inv w show ?thesis
    by (intro that [of groups new t1]) simp_all
qed

section \<open>What the persisted log holds\<close>

text \<open>
  Claim C5: for every run, the persisted log holds exactly the entries of the moves of
  the run that persisted it, and no entry of an earlier run on the same object. The code
  breaks this. \<^verbatim>\<open>self.moves\<close> is set to the empty list in \<^verbatim>\<open>__init__\<close> only, every run
  appends to it, \<^verbatim>\<open>save_history\<close> writes the whole list, and nothing empties it, not even
  an undo. The docstring of \<^verbatim>\<open>undo_last_organization\<close>, "Undo the last organization
  operation", and the log that a newly created object writes both side with the claim.
  When the object that organized \<open>two_files\<close> organizes the result once more, this second
  run moves nothing, and the log it writes holds the two moves of the first run, where a
  newly created object writes a log without entries on the same tree; the undo that
  follows the second run puts back both files of the first run.
\<close>

theorem second_run_persists_earlier_moves:
  "organize_by_category False noon (init home) two_files = (Inr (Some 2), first_self, first_tree) \<and>
   organize_by_category False later first_self first_tree
     = (Inr (Some 0), first_self, second_tree) \<and>
   lookup second_tree (history_file first_self)
     = Some (File (History later
                    [(home @ [''notes.txt''], home @ [''Documents'', ''notes.txt'']),
                     (home @ [''cat.png''], home @ [''Images'', ''cat.png''])])
              later True True) \<and>
   organize_by_category False later (init home) first_tree
     = (Inr (Some 0), init home, fresh_second_tree) \<and>
   lookup fresh_second_tree (history_file (init home))
     = Some (File (History later []) later True True) \<and>
   fst (undo_last_organization first_self second_tree) = Inr UndoComplete \<and>
   lookup (snd (undo_last_organization first_self second_tree)) (home @ [''notes.txt''])
     = Some (plain_file ''to do'') \<and>
   lookup (snd (undo_last_organization first_self second_tree)) (home @ [''cat.png''])
     = Some (plain_file ''meow'')"
  by code_simp

text \<open>
  The entries that stay in the object can cost a file. One object organizes
  \<open>single_file\<close> and undoes that, which puts \<^verbatim>\<open>a.txt\<close> back; the entry of the move stays in
  \<^verbatim>\<open>self.moves\<close>. The user then puts another file at \<^verbatim>\<open>Documents/a.txt\<close>. The second run of
  the object moves \<^verbatim>\<open>a.txt\<close> to \<^verbatim>\<open>Documents/a_1.txt\<close> and persists both entries. The undo of
  the second run puts \<^verbatim>\<open>a_1.txt\<close> back to \<^verbatim>\<open>a.txt\<close>, then replays the entry of the first run
  and renames the user's file to \<^verbatim>\<open>a.txt\<close>: the content that was there is lost. The log of
  a newly created object on the same tree holds the one move of its run.
\<close>

lemma stale_entry_overwrites_file:
  "organize_by_category False noon (init home) single_file
     = (Inr (Some 1), single_self, single_organized) \<and>
   undo_last_organization single_self single_organized = (Inr UndoComplete, single_file) \<and>
   organize_by_category False later single_self refilled_home
     = (Inr (Some 1), both_self, reorganized) \<and>
   undo_last_organization both_self reorganized = (Inr UndoComplete, overwritten_home) \<and>
   organize_by_category False later (init home) refilled_home
     = (Inr (Some 1),
        \<lparr>source_dir = home, history_file = home @ [''.organization_history.json''],
         moves = [(home @ [''a.txt''], home @ [''Documents'', ''a_1.txt''])]\<rparr>,
        [([], Dir), (home, Dir),
         (home @ [''Documents''], Dir),
         (home @ [''Documents'', ''a.txt''], plain_file ''other''),
         (home @ [''Documents'', ''a_1.txt''], plain_file ''one''),
         (home @ [''.organization_history.json''],
          File (History later [(home @ [''a.txt''], home @ [''Documents'', ''a_1.txt''])])
            later True True)])"
  by code_simp

text \<open>
  What a run persists, in general. For every category run that returns, on an object
  whose log file lies directly in its directory (as \<^verbatim>\<open>__init__\<close> sets it): the persisted
  log holds the whole list of the object, that is the entries that the object held when
  the run started, followed by the entries of this run; this run adds exactly one entry
  per successfully completed move, in execution order (their sources are scanned files,
  in the order in which the run handles them), their number is the count the run
  reports, and for each of them the file that was at the source is now at the
  destination, in the folder of its category. For a newly created object the list is
  empty when the run starts, so its log holds the entries of its run and no others.
\<close>

theorem persisted_log_contents:
  assumes run: "organize_by_category False now self t = (Inr r, self', t')"
    and hist: "history_file self = source_dir self @ [h]"
  shows "\<exists>groups new. scan_directory self t = Inr groups \<and>
           moves self' = moves self @ new \<and> r = Some (length new) \<and>
           subseq (map fst new) (map path (members groups)) \<and>
           (\<forall>(a, b) \<in> set new.
               regular t a \<and> lookup t' b = lookup t a \<and>
               parent b = source_dir self @ [get_file_category a]) \<and>
           (\<exists>v. lookup t' (history_file self)
                  = Some (File (History now (moves self @ new)) now True v))"
proof -
  from run obtain groups new t1 where scan: "scan_directory self t = Inr groups"
    and new: "moves self' = moves self @ new" "r = Some (length new)"
      "subseq (map fst new) (map path (members groups))"
      "\<forall>(a, b) \<in> set new. parent b = source_dir self @ [get_file_category a]"
    and inv: "run_inv t (source_dir self) new {} t1"
    and w: "write_file t1 (history_file self) (History now (moves self')) now = Inr t'"
    by (rule category_run)
  have entries: "regular t a \<and> lookup t' b = lookup t a \<and>
                 parent b = source_dir self @ [get_file_category a]"
    if ab: "(a, b) \<in> set new" for a b
  proof -
    note l = run_inv_logged [OF inv ab]
    then have "b \<noteq> history_file self" by (auto simp: hist)
    with write_file_lookup [OF w] have "lookup t' b = lookup t1 b" by simp
    with l new(4) ab show ?thesis by (auto simp: regular_def)
  qed
  from write_file_accessible [OF w] new(1)
  have "\<exists>v. lookup t' (history_file self)
              = Some (File (History now (moves self @ new)) now True v)"
    by simp
  with scan new entries show ?thesis
    by (intro exI [of _ groups] exI [of _ new] conjI) auto
qed


theorem persisted_log_contents_witness:
  "organize_by_category False noon (init home) two_files = (Inr (Some 2), first_self, first_tree) \<and>
   history_file (init home) = source_dir (init home) @ [''.organization_history.json''] \<and>
   (\<exists>groups new. scan_directory (init home) two_files = Inr groups \<and>
      moves first_self = moves (init home) @ new \<and> Some 2 = Some (length new) \<and>
      subseq (map fst new) (map path (members groups)) \<and>
      (\<forall>(a, b) \<in> set new.
          regular two_files a \<and> lookup first_tree b = lookup two_files a \<and>
          parent b = source_dir (init home) @ [get_file_category a]) \<and>
      (\<exists>v. lookup first_tree (history_file (init home))
             = Some (File (History noon (moves (init home) @ new)) noon True v)))"
proof -
  have run: "organize_by_category False noon (init home) two_files
               = (Inr (Some 2), first_self, first_tree)"
    by code_simp
  have hist: "history_file (init home) = source_dir (init home) @ [''.organization_history.json'']"
    by (simp add: init_def)
  from run hist persisted_log_contents [OF run hist] show ?thesis
    by (intro conjI)
qed

lemma fresh_object_log:
  assumes run: "organize_by_category False now (init root) t = (Inr r, self', t')"
  shows "\<exists>groups. scan_directory (init root) t = Inr groups \<and>
           r = Some (length (moves self')) \<and>
           subseq (map fst (moves self')) (map path (members groups)) \<and>
           (\<forall>(a, b) \<in> set (moves self').
               regular t a \<and> lookup t' b = lookup t a \<and>
               parent b = root @ [get_file_category a]) \<and>
           (\<exists>v. lookup t' (history_file (init root))
                  = Some (File (History now (moves self')) now True v))"
proof -
  have hist: "history_file (init root)
                = source_dir (init root) @ [''.organization_history.json'']"
    by (simp add: init_def)
  from persisted_log_contents [OF run hist] show ?thesis
    by (auto simp: init_def)
qed

section \<open>Replaying the log\<close>

lemma mkdir_parents_existing:
  "lookup t d = Some Dir \<Longrightarrow> mkdir_parents t d = (Inr (), t)"
  by (simp add: mkdir_parents.simps [of t d] os_mkdir_def is_dir_def stat_test_def stat_def)

lemma restore_move_file:
  assumes "lookup t b = Some (File c m x True)" and "lookup t a = None"
    and "a \<noteq> []" and "lookup t (parent a) = Some Dir"
  shows "restore_move t (a, b) = fs_put a (File c m x True) (fs_del b t)"
proof -
  from assms(1) have "path_exists t b = Inr True"
    by (simp add: path_exists_def stat_test_def stat_def)
  moreover from assms(2) have "\<not> os_path_isdir t a"
    by (simp add: os_path_isdir_def stat_def)
  moreover from assms have "os_rename t b a = Inr (fs_put a (File c m x True) (fs_del b t))"
    by (simp add: os_rename_def)
  ultimately show ?thesis
    using assms(4) by (simp add: restore_move_def mkdir_parents_existing shutil_move_def)
qed

lemma restorable_entry:
  "restorable root ms t \<Longrightarrow> (a, b) \<in> set ms \<Longrightarrow>
     a \<noteq> [] \<and> parent a = root \<and> length root + 1 < length b \<and>
     (\<exists>c m x. lookup t b = Some (File c m x True)) \<and> lookup t a = None"
  unfolding restorable_def by fast

lemma restore_moves_inverse:
  assumes "restorable root ms t"
  shows "(\<forall>(a, b) \<in> set ms. lookup (restore_moves (rev ms) t) a = lookup t b \<and>
                              lookup (restore_moves (rev ms) t) b = None) \<and>
         (\<forall>q. q \<notin> fst ` set ms \<and> q \<notin> snd ` set ms \<longrightarrow>
              lookup (restore_moves (rev ms) t) q = lookup t q)"
  using assms
proof (induction ms arbitrary: t rule: rev_induct)
  case Nil
  then show ?case by simp
next
  case (snoc mv ms)
  obtain a b where mv: "mv = (a, b)" by (cases mv)
  note r = snoc.prems
  from restorable_entry [OF r, of a b]
  have a: "a \<noteq> []" "parent a = root" and len_b: "length root + 1 < length b"
    and free: "lookup t a = None"
    and "\<exists>c m x. lookup t b = Some (File c m x True)"
    by (simp_all add: mv)
  then obtain c m x where b: "lookup t b = Some (File c m x True)" by blast
  from r have root: "lookup t root = Some Dir"
    and dist: "distinct (map fst ms)" "distinct (map snd ms)"
      "a \<notin> fst ` set ms" "b \<notin> snd ` set ms"
    by (simp_all add: restorable_def mv)
  from a have len_a: "length a = length root + 1" using parent_length [of a] by simp
  define t1 where "t1 = restore_move t (a, b)"
  from restore_move_file [OF b free a(1)] a(2) root
  have t1: "t1 = fs_put a (File c m x True) (fs_del b t)" by (simp add: t1_def)
  have look: "lookup t1 q = (if q = a then Some (File c m x True)
                             else if q = b then None else lookup t q)" for q
    by (simp add: t1)
  have others: "a' \<noteq> a \<and> a' \<noteq> b \<and> b' \<noteq> a \<and> b' \<noteq> b" if "(a', b') \<in> set ms" for a' b'
  proof -
    from that have "(a', b') \<in> set (ms @ [mv])" by simp
    note e = restorable_entry [OF r this]
    from that have "a' \<in> fst ` set ms" "b' \<in> snd ` set ms" by force+
    with dist have "a' \<noteq> a" "b' \<noteq> b" by auto
    moreover from e len_b have "a' \<noteq> b" using parent_length [of a'] by auto
    moreover from e len_a have "b' \<noteq> a" by auto
    ultimately show ?thesis by simp
  qed
  have r1: "restorable root ms t1"
    unfolding restorable_def
  proof (intro conjI ballI)
    from a len_b root show "lookup t1 root = Some Dir"
      using parent_not_root [of a root] by (auto simp: look)
    from dist show "distinct (map fst ms)" "distinct (map snd ms)" by simp_all
    fix e assume e: "e \<in> set ms"
    obtain a' b' where ab: "e = (a', b')" by (cases e)
    from e ab have "(a', b') \<in> set (ms @ [mv])" by simp
    from restorable_entry [OF r this] others [OF e [unfolded ab]]
    show "case e of (a, b) \<Rightarrow> a \<noteq> [] \<and> parent a = root \<and> length root + 1 < length b \<and>
            (\<exists>c m x. lookup t1 b = Some (File c m x True)) \<and> lookup t1 a = None"
      by (simp add: ab look)
  qed
  note IH = snoc.IH [OF r1]
  have unfold: "restore_moves (rev (ms @ [mv])) t = restore_moves (rev ms) t1"
    by (simp add: mv t1_def)
  from len_a len_b have ab_ne: "a \<noteq> b" by auto
  have a_out: "a \<notin> snd ` set ms"
  proof
    assume "a \<in> snd ` set ms"
    then obtain a' where "(a', a) \<in> set ms" by auto
    from others [OF this] show False by simp
  qed
  have b_out: "b \<notin> fst ` set ms"
  proof
    assume "b \<in> fst ` set ms"
    then obtain b' where "(b, b') \<in> set ms" by auto
    from others [OF this] show False by simp
  qed
  show ?case
    unfolding unfold
  proof (intro conjI ballI allI impI)
    fix e assume e: "e \<in> set (ms @ [mv])"
    obtain a' b' where ab: "e = (a', b')" by (cases e)
    show "case e of (a, b) \<Rightarrow> lookup (restore_moves (rev ms) t1) a = lookup t b \<and>
                                 lookup (restore_moves (rev ms) t1) b = None"
    proof (cases "e = mv")
      case True
      from IH have frame: "\<forall>q. q \<notin> fst ` set ms \<and> q \<notin> snd ` set ms \<longrightarrow>
                              lookup (restore_moves (rev ms) t1) q = lookup t1 q"
        by blast
      from frame dist a_out have "lookup (restore_moves (rev ms) t1) a = lookup t1 a" by simp
      moreover from frame dist b_out have "lookup (restore_moves (rev ms) t1) b = lookup t1 b"
        by simp
      ultimately show ?thesis using True b ab_ne by (simp add: mv ab look)
    next
      case False
      with e have in_ms: "(a', b') \<in> set ms" by (simp add: ab)
      with IH have "lookup (restore_moves (rev ms) t1) a' = lookup t1 b'"
        "lookup (restore_moves (rev ms) t1) b' = None"
        by auto
      with others [OF in_ms] show ?thesis by (simp add: ab look)
    qed
  next
    fix q assume q: "q \<notin> fst ` set (ms @ [mv]) \<and> q \<notin> snd ` set (ms @ [mv])"
    then have "q \<notin> fst ` set ms \<and> q \<notin> snd ` set ms" "q \<noteq> a" "q \<noteq> b"
      by (auto simp: mv)
    with IH show "lookup (restore_moves (rev ms) t1) q = lookup t q"
      by (simp add: look)
  qed
qed


lemma is_dir_value: "\<not> stat_raises t p \<Longrightarrow> is_dir t p = Inr (lookup t p = Some Dir)"
  by (auto simp: is_dir_def stat_test_value split: option.splits node.splits)

lemma remove_empty_dirs_ok:
  "\<forall>i \<in> set items. \<not> stat_raises t i \<Longrightarrow> \<exists>t'. remove_empty_dirs items t = (Inr (), t')"
proof (induction items arbitrary: t)
  case Nil
  then show ?case by simp
next
  case (Cons item items)
  then have item: "\<not> stat_raises t item" and rest: "\<forall>i \<in> set items. \<not> stat_raises t i"
    by simp_all
  show ?case
  proof (cases "lookup t item = Some Dir \<and> children t item = []")
    case True
    from rest have "\<forall>i \<in> set items. \<not> stat_raises (fs_del item t) i"
      by (auto simp: stat_raises_def)
    from Cons.IH [OF this] True show ?thesis
      by (simp add: is_dir_value [OF item] iterdir_def rmdir_def)
  next
    case False
    with Cons.IH [OF rest] show ?thesis
      by (auto simp: is_dir_value [OF item] iterdir_def)
  qed
qed

lemma organize_by_category_fields:
  assumes "organize_by_category False now self t = (Inr r, self', t')"
  shows "source_dir self' = source_dir self \<and> history_file self' = history_file self"
  using assms
proof (cases rule: organize_by_category_run)
  case (1 groups n t1)
  from move_categories_fields [OF 1(2)] show ?thesis .
qed

section \<open>Organizing by category, then undoing\<close>

text \<open>
  Claim C1 says that after every completed category run, undo restores the files, deletes
  the log, and a second undo fails with \<open>NoHistory\<close>. A run that moves nothing also
  completes and writes a log, without entries: on it undo returns with \<open>EmptyHistory\<close>
  and keeps the log, and so does the second undo.
\<close>

theorem undo_after_run_without_moves:
  "organize_by_category False noon (init home) empty_root
     = (Inr (Some 0), init home, empty_log_root) \<and>
   undo_last_organization (init home) empty_log_root = (Inr EmptyHistory, empty_log_root) \<and>
   lookup empty_log_root (history_file (init home)) \<noteq> None \<and>
   fst (undo_last_organization (init home)
          (snd (undo_last_organization (init home) empty_log_root))) \<noteq> Inr NoHistory"
  by code_simp

text \<open>
  The round trip also fails when a file that the run moved has the name of a category
  folder that the run makes afterwards: undo finds a directory at the file's old path,
  and \<^verbatim>\<open>shutil.move\<close> puts the file inside it. In \<open>named_like_folder\<close> the file
  \<^verbatim>\<open>/home/Images\<close> ends up as \<^verbatim>\<open>/home/Images/Images\<close>.
\<close>

lemma undo_puts_file_into_its_namesake:
  "fst (organize_by_category False noon (init home) named_like_folder) = Inr (Some 2) \<and>
   undo_last_organization (init home)
     (snd (snd (organize_by_category False noon (init home) named_like_folder)))
   = (Inr UndoComplete,
      [([], Dir), (home, Dir),
       (home @ [''Images''], Dir),
       (home @ [''cat.png''], plain_file ''meow''),
       (home @ [''Images'', ''Images''], plain_file ''list of pictures'')])"
  by code_simp

text \<open>
  Claim C1, amended. For every root directory on which a category organization run by a
  newly created object completed with at least one successful move, and where every
  source path recorded in the log is free when undo starts: the persisted log holds the
  moves of the run; undo runs to its end and moves every file recorded in the log back to
  its exact original source path (the path then holds what it held before the run, and
  the destination is free); it deletes the log file; and a second undo right after it
  returns with \<open>NoHistory\<close>.
\<close>

theorem organize_undo_round_trip:
  assumes run: "organize_by_category False now (init root) t0 = (Inr r, self1, t1)"
    and some: "moves self1 \<noteq> []"
    and vacant: "\<forall>(a, b) \<in> set (moves self1). lookup t1 a = None"
  shows "\<exists>t2. undo_last_organization self1 t1 = (Inr UndoComplete, t2) \<and>
           (\<exists>v. lookup t1 (history_file self1)
                  = Some (File (History now (moves self1)) now True v)) \<and>
           (\<forall>(a, b) \<in> set (moves self1).
               regular t0 a \<and> lookup t2 a = lookup t0 a \<and> lookup t2 b = None) \<and>
           lookup t2 (history_file self1) = None \<and>
           undo_last_organization self1 t2 = (Inr NoHistory, t2)"
proof -
  define hist where "hist = root @ [''.organization_history.json'']"
  from organize_by_category_fields [OF run]
  have fields: "source_dir self1 = root" "history_file self1 = hist"
    by (simp_all add: init_def hist_def)
  from run obtain groups new tA where scan: "scan_directory (init root) t0 = Inr groups"
    and new: "moves self1 = moves (init root) @ new"
    and inv: "run_inv t0 (source_dir (init root)) new {} tA"
    and w: "write_file tA (history_file (init root)) (History now (moves self1)) now = Inr t1"
    by (rule category_run)
  from new have ms: "moves self1 = new" by (simp add: init_def)
  from inv have inv: "run_inv t0 root new {} tA" by (simp add: init_def)
  from w have w: "write_file tA hist (History now new) now = Inr t1"
    by (simp add: init_def hist_def ms)
  from write_file_accessible [OF w] obtain v
    where log: "lookup t1 hist = Some (File (History now new) now True v)"
    by blast
  from write_file_lookup [OF w] have frame1: "q \<noteq> hist \<Longrightarrow> lookup t1 q = lookup tA q" for q
    by simp
  have len_hist: "length hist = length root + 1" by (simp add: hist_def)
  have hist_root: "hist \<noteq> root" by (simp add: hist_def)
  have entry: "a \<noteq> [] \<and> parent a = root \<and> length root + 1 < length b \<and>
               (\<exists>c m x. lookup t0 a = Some (File c m x True)) \<and> lookup t1 b = lookup t0 a \<and>
               lookup t1 a = None \<and> a \<noteq> hist \<and> b \<noteq> hist"
    if ab: "(a, b) \<in> set new" for a b
  proof -
    note l = run_inv_logged [OF inv ab]
    with len_hist have "b \<noteq> hist" by auto
    moreover from vacant ab have "lookup t1 a = None" by (auto simp: ms)
    moreover from this log have "a \<noteq> hist" by auto
    ultimately show ?thesis using l frame1 [of b] by simp
  qed
  have restorable: "restorable root new t1"
    unfolding restorable_def
  proof (intro conjI ballI)
    from run_inv_root [OF inv] hist_root show "lookup t1 root = Some Dir"
      by (simp add: frame1)
    from run_inv_distinct [OF inv] show "distinct (map fst new)" "distinct (map snd new)"
      by simp_all
    fix e assume e: "e \<in> set new"
    obtain a b where ab: "e = (a, b)" by (cases e)
    from entry [OF e [unfolded ab]]
    show "case e of (a, b) \<Rightarrow> a \<noteq> [] \<and> parent a = root \<and> length root + 1 < length b \<and>
            (\<exists>c m x. lookup t1 b = Some (File c m x True)) \<and> lookup t1 a = None"
      by (auto simp: ab)
  qed
  define t2 where "t2 = restore_moves (rev new) t1"
  from restore_moves_inverse [OF restorable]
  have undone: "\<And>a b. (a, b) \<in> set new \<Longrightarrow> lookup t2 a = lookup t1 b \<and> lookup t2 b = None"
    and frame2: "\<And>q. q \<notin> fst ` set new \<Longrightarrow> q \<notin> snd ` set new \<Longrightarrow> lookup t2 q = lookup t1 q"
    unfolding t2_def by blast+
  have hist_out: "hist \<notin> fst ` set new" "hist \<notin> snd ` set new"
    using entry by force+
  have root_out: "root \<notin> fst ` set new" "root \<notin> snd ` set new"
  proof -
    show "root \<notin> fst ` set new"
    proof
      assume "root \<in> fst ` set new"
      then obtain b where "(root, b) \<in> set new" by auto
      from entry [OF this] show False using parent_not_root [of root root] by simp
    qed
    show "root \<notin> snd ` set new"
    proof
      assume "root \<in> snd ` set new"
      then obtain a where "(a, root) \<in> set new" by auto
      from entry [OF this] show False by simp
    qed
  qed
  from frame2 [OF root_out] run_inv_root [OF inv] hist_root
  have root2: "lookup t2 root = Some Dir" by (simp add: frame1)
  from frame2 [OF hist_out] log
  have log2: "lookup t2 hist = Some (File (History now new) now True v)" by simp
  note s = scan_directory_Inr [OF scan]
  have statable: "\<forall>i \<in> set (children t2 root). \<not> stat_raises t2 i"
  proof
    fix i assume i: "i \<in> set (children t2 root)"
    show "\<not> stat_raises t2 i"
    proof
      assume raises: "stat_raises t2 i"
      then obtain e where e: "lookup t2 i = Some (Unstatable e)" "\<not> ignore_error e"
        by (auto simp: stat_raises_def split: option.splits node.splits)
      have "i \<notin> fst ` set new"
      proof
        assume "i \<in> fst ` set new"
        then obtain b where ib: "(i, b) \<in> set new" by auto
        from undone [OF ib] entry [OF ib] e show False by auto
      qed
      moreover have "i \<notin> snd ` set new"
      proof
        assume "i \<in> snd ` set new"
        then obtain a where ai: "(a, i) \<in> set new" by auto
        from undone [OF ai] e show False by simp
      qed
      ultimately have "lookup t1 i = Some (Unstatable e)" using frame2 e by simp
      with log have "i \<noteq> hist" by auto
      with \<open>lookup t1 i = Some (Unstatable e)\<close> have "lookup tA i = Some (Unstatable e)"
        by (simp add: frame1)
      from run_inv_unstatable [OF inv this] have t0i: "lookup t0 i = Some (Unstatable e)" .
      from i have "i \<noteq> []" "parent i = root" by (simp_all add: set_children)
      with t0i have "i \<in> set (children t0 root)" by (simp add: set_children)
      with s(2) have "\<not> stat_raises t0 i" by (simp add: init_def)
      with t0i e show False by (simp add: stat_raises_def)
    qed
  qed
  from remove_empty_dirs_ok [OF statable] obtain t3
    where cleanup: "remove_empty_dirs (children t2 root) t2 = (Inr (), t3)"
    by blast
  have kids: "\<forall>i \<in> set (children t2 root). i \<noteq> [] \<and> parent i = root"
    by (simp add: set_children)
  note eff = remove_empty_dirs_effect [OF cleanup kids]
  from eff [of hist] log2
  have log3: "lookup t3 hist = Some (File (History now new) now True v)" by simp
  define t4 where "t4 = fs_del hist t3"
  from log3 have ul: "unlink t3 hist = Inr t4" by (simp add: unlink_def t4_def)
  from log have ex: "path_exists t1 hist = Inr True"
    by (simp add: path_exists_def stat_test_def stat_def)
  from log have rd: "read_file t1 hist = Inr (History now new)"
    by (simp add: read_file_def)
  from some ms have "new \<noteq> []" by simp
  with ex rd root2 cleanup ul
  have undo: "undo_last_organization self1 t1 = (Inr UndoComplete, t4)"
    by (simp add: undo_last_organization_def fields json_load_moves_def iterdir_def
        t2_def [symmetric])
  have restored: "regular t0 a \<and> lookup t4 a = lookup t0 a \<and> lookup t4 b = None"
    if ab: "(a, b) \<in> set new" for a b
  proof -
    note e = entry [OF ab] and bk = undone [OF ab]
    from e bk obtain c m x where a2: "lookup t2 a = Some (File c m x True)"
      "lookup t0 a = Some (File c m x True)"
      by auto
    from eff [of a] a2 have "lookup t3 a = lookup t0 a" by simp
    moreover from eff [of b] bk have "lookup t3 b = None" by simp
    ultimately show ?thesis using e a2 by (simp add: t4_def regular_def)
  qed
  have gone: "lookup t4 hist = None" by (simp add: t4_def)
  then have "path_exists t4 hist = Inr False"
    by (simp add: path_exists_def stat_test_def stat_def ignore_error_def)
  then have again: "undo_last_organization self1 t4 = (Inr NoHistory, t4)"
    by (simp add: undo_last_organization_def fields)
  from log have "\<exists>v. lookup t1 (history_file self1)
                       = Some (File (History now (moves self1)) now True v)"
    by (simp add: fields ms)
  moreover from restored
  have "\<forall>(a, b) \<in> set (moves self1).
           regular t0 a \<and> lookup t4 a = lookup t0 a \<and> lookup t4 b = None"
    by (auto simp: ms)
  ultimately show ?thesis using undo gone again
    by (intro exI [of _ t4] conjI) (simp_all add: fields)
qed


theorem organize_undo_round_trip_witness:
  "organize_by_category False noon (init home) two_files = (Inr (Some 2), first_self, first_tree) \<and>
   moves first_self \<noteq> [] \<and>
   list_all (\<lambda>(a, b). lookup first_tree a = None) (moves first_self) \<and>
   (\<exists>t2. undo_last_organization first_self first_tree = (Inr UndoComplete, t2) \<and>
      (\<exists>v. lookup first_tree (history_file first_self)
             = Some (File (History noon (moves first_self)) noon True v)) \<and>
      (\<forall>(a, b) \<in> set (moves first_self).
          regular two_files a \<and> lookup t2 a = lookup two_files a \<and> lookup t2 b = None) \<and>
      lookup t2 (history_file first_self) = None \<and>
      undo_last_organization first_self t2 = (Inr NoHistory, t2))"
proof -
  have run: "organize_by_category False noon (init home) two_files
               = (Inr (Some 2), first_self, first_tree)"
    by code_simp
  have some: "moves first_self \<noteq> []"
    by code_simp
  have vacant: "list_all (\<lambda>(a, b). lookup first_tree a = None) (moves first_self)"
    by code_simp
  then have vacant': "\<forall>(a, b) \<in> set (moves first_self). lookup first_tree a = None"
    by (simp add: list_all_iff)
  from run some vacant organize_undo_round_trip [OF run some vacant'] show ?thesis
    by (intro conjI)
qed

end
